theory Spec2Isabelle
  imports Main "HOL-Library.Word" "HOL-Library.Multiset"
begin

unbundle bit_operations_syntax

section \<open>Host side: the command list built by OneSweep.cpp\<close>

subsection \<open>Data\<close>

type_synonym u32 = "32 word"

text \<open>A device buffer (\<open>ID3D12Resource\<close>) is identified by a handle; its GPU virtual
  address identifies the same buffer.\<close>

type_synonym resource = nat

datatype gpu_address = GPUVirtualAddress resource

definition GetGPUVirtualAddress :: "resource \<Rightarrow> gpu_address" where
  "GetGPUVirtualAddress r = GPUVirtualAddress r"

fun resource_of :: "gpu_address \<Rightarrow> resource" where
  "resource_of (GPUVirtualAddress r) = r"

text \<open>What \<open>PrepareSortCmdList\<close> records into the command list: one constructor for the
  \<open>Dispatch\<close> of each of the four kernels, with the arguments in the order of the call, and
  one for \<open>UAVBarrierSingle\<close>.\<close>

datatype cmd =
    InitSweepDispatch gpu_address gpu_address gpu_address u32
  | GlobalHistDispatch gpu_address gpu_address u32 u32
  | ScanDispatch gpu_address gpu_address u32 u32
  | DigitBinningPassDispatch gpu_address gpu_address gpu_address gpu_address gpu_address
      resource u32 u32 u32
  | UAVBarrier resource

text \<open>The members of the sorter that \<open>PrepareSortCmdList\<close> reads or writes.\<close>

record OneSweep =
  m_cmdList :: "cmd list"
  m_sortBuffer :: resource
  m_altBuffer :: resource
  m_sortPayloadBuffer :: resource
  m_altPayloadBuffer :: resource
  m_globalHistBuffer :: resource
  m_passHistBuffer :: resource
  m_indexBuffer :: resource
  m_numKeys :: u32
  m_partitions :: u32
  m_globalHistPartitions :: u32
  k_radixPasses :: u32

subsection \<open>Recording commands\<close>

definition record_cmd :: "cmd \<Rightarrow> OneSweep \<Rightarrow> OneSweep" where
  "record_cmd c s = s\<lparr>m_cmdList := m_cmdList s @ [c]\<rparr>"

definition UAVBarrierSingle :: "resource \<Rightarrow> OneSweep \<Rightarrow> OneSweep" where
  "UAVBarrierSingle r s = record_cmd (UAVBarrier r) s"

definition swap_sort_alt :: "OneSweep \<Rightarrow> OneSweep" where
  "swap_sort_alt s = s\<lparr>m_sortBuffer := m_altBuffer s, m_altBuffer := m_sortBuffer s\<rparr>"

definition swap_payloads :: "OneSweep \<Rightarrow> OneSweep" where
  "swap_payloads s =
     s\<lparr>m_sortPayloadBuffer := m_altPayloadBuffer s, m_altPayloadBuffer := m_sortPayloadBuffer s\<rparr>"

subsection \<open>\<open>OneSweep::PrepareSortCmdList\<close>\<close>

text \<open>The body of the \<open>for\<close> loop: one digit-binning dispatch, four barriers, two swaps.\<close>

definition digitBinningIteration :: "u32 \<Rightarrow> OneSweep \<Rightarrow> OneSweep" where
  "digitBinningIteration radixShift s =
     (let s1 = record_cmd (DigitBinningPassDispatch
                 (GetGPUVirtualAddress (m_sortBuffer s))
                 (GetGPUVirtualAddress (m_altBuffer s))
                 (GetGPUVirtualAddress (m_sortPayloadBuffer s))
                 (GetGPUVirtualAddress (m_altPayloadBuffer s))
                 (GetGPUVirtualAddress (m_indexBuffer s))
                 (m_passHistBuffer s)
                 (m_numKeys s)
                 (m_partitions s)
                 radixShift) s;
          s2 = UAVBarrierSingle (m_sortBuffer s1) s1;
          s3 = UAVBarrierSingle (m_sortPayloadBuffer s2) s2;
          s4 = UAVBarrierSingle (m_altBuffer s3) s3;
          s5 = UAVBarrierSingle (m_altPayloadBuffer s4) s4;
          s6 = swap_sort_alt s5
      in swap_payloads s6)"

text \<open>\<open>for (uint32_t radixShift = 0; radixShift < 32; radixShift += 8)\<close>, entered at any
  value of the counter.\<close>

function digitBinningLoop :: "u32 \<Rightarrow> OneSweep \<Rightarrow> OneSweep" where
  "digitBinningLoop radixShift s =
     (if radixShift < 32
      then digitBinningLoop (radixShift + 8) (digitBinningIteration radixShift s)
      else s)"
  by pat_completeness auto
termination
proof (relation "measure (\<lambda>(radixShift, s). 32 - unat radixShift)")
  show "wf (measure (\<lambda>(radixShift :: u32, s :: OneSweep). 32 - unat radixShift))"
    by simp
next
  fix radixShift :: u32 and s :: OneSweep
  assume lt: "radixShift < 32"
  then have small: "unat radixShift < 32"
    by (simp add: word_less_nat_alt)
  then have "unat (radixShift + 8) = unat radixShift + 8"
    by (simp add: unat_word_ariths)
  with small show "((radixShift + 8, digitBinningIteration radixShift s), (radixShift, s))
      \<in> measure (\<lambda>(radixShift, s). 32 - unat radixShift)"
    by simp
qed

definition PrepareSortCmdList :: "OneSweep \<Rightarrow> OneSweep" where
  "PrepareSortCmdList s =
     (let s1 = record_cmd (InitSweepDispatch
                 (GetGPUVirtualAddress (m_globalHistBuffer s))
                 (GetGPUVirtualAddress (m_passHistBuffer s))
                 (GetGPUVirtualAddress (m_indexBuffer s))
                 (m_partitions s)) s;
          s2 = UAVBarrierSingle (m_globalHistBuffer s1) s1;
          s3 = record_cmd (GlobalHistDispatch
                 (GetGPUVirtualAddress (m_sortBuffer s2))
                 (GetGPUVirtualAddress (m_globalHistBuffer s2))
                 (m_numKeys s2)
                 (m_globalHistPartitions s2)) s2;
          s4 = UAVBarrierSingle (m_globalHistBuffer s3) s3;
          s5 = record_cmd (ScanDispatch
                 (GetGPUVirtualAddress (m_globalHistBuffer s4))
                 (GetGPUVirtualAddress (m_passHistBuffer s4))
                 (m_partitions s4)
                 (k_radixPasses s4)) s4;
          s6 = UAVBarrierSingle (m_passHistBuffer s5) s5
      in digitBinningLoop 0 s6)"

text \<open>The commands a call adds to the command list.\<close>

definition emitted :: "OneSweep \<Rightarrow> cmd list" where
  "emitted s = drop (length (m_cmdList s)) (m_cmdList (PrepareSortCmdList s))"


text \<open>The digit-binning dispatches of a command list: source keys, destination keys,
  source payloads, destination payloads, radix shift.\<close>

fun digitBinningArgs :: "cmd \<Rightarrow> (resource \<times> resource \<times> resource \<times> resource \<times> u32) option" where
  "digitBinningArgs (DigitBinningPassDispatch src dst srcP dstP idx ph n parts radixShift) =
     Some (resource_of src, resource_of dst, resource_of srcP, resource_of dstP, radixShift)"
| "digitBinningArgs _ = None"

fun radixShiftArg :: "cmd \<Rightarrow> u32 option" where
  "radixShiftArg (DigitBinningPassDispatch src dst srcP dstP idx ph n parts radixShift) =
     Some radixShift"
| "radixShiftArg _ = None"

fun isDispatch :: "cmd \<Rightarrow> bool" where
  "isDispatch (UAVBarrier r) = False"
| "isDispatch _ = True"

fun isDigitBinning :: "cmd \<Rightarrow> bool" where
  "isDigitBinning (DigitBinningPassDispatch src dst srcP dstP idx ph n parts radixShift) = True"
| "isDigitBinning _ = False"

subsection \<open>The constructors\<close>

text \<open>Modelled from the spec: the sort order, an enumeration declared in a header that is not
  among the sources; ascending or descending.\<close>

datatype ORDER = ORDER_ASCENDING | ORDER_DESCENDING

text \<open>Modelled from the spec: the key type, an enumeration declared in a header that is not
  among the sources; unsigned integer, signed integer or floating point.\<close>

datatype KEY_TYPE = KEY_UINT32 | KEY_INT32 | KEY_FLOAT32

text \<open>Modelled from the spec: the payload type, an enumeration declared in a header that is
  not among the sources.\<close>

datatype PAYLOAD_TYPE = PAYLOAD_UINT32 | PAYLOAD_INT32 | PAYLOAD_FLOAT32

text \<open>Modelled from the spec: the device capability descriptor, declared in a header that is
  not among the sources; it holds at least the number of concurrently resident partitions
  and a preferred partition size.\<close>

record DeviceInfo =
  maxResidentPartitions :: nat
  preferredPartitionSize :: nat

text \<open>The arguments a constructor of \<open>OneSweep\<close> hands to the constructor of its base class
  \<open>SweepBase\<close>; the overload without a payload type has no such argument.\<close>

record SweepBaseInit =
  init_device :: nat
  init_deviceInfo :: DeviceInfo
  init_sortingOrder :: ORDER
  init_keyType :: KEY_TYPE
  init_payloadType :: "PAYLOAD_TYPE option"
  init_sortName :: string
  init_radixPasses :: u32
  init_radix :: u32
  init_partitionSize :: u32

definition OneSweep_keysOnly :: "nat \<Rightarrow> DeviceInfo \<Rightarrow> ORDER \<Rightarrow> KEY_TYPE \<Rightarrow> SweepBaseInit" where
  "OneSweep_keysOnly device deviceInfo sortingOrder keyType =
     \<lparr>init_device = device, init_deviceInfo = deviceInfo, init_sortingOrder = sortingOrder,
      init_keyType = keyType, init_payloadType = None, init_sortName = ''OneSweep '',
      init_radixPasses = 4, init_radix = 256, init_partitionSize = push_bit 13 1\<rparr>"

definition OneSweep_pairs ::
    "nat \<Rightarrow> DeviceInfo \<Rightarrow> ORDER \<Rightarrow> KEY_TYPE \<Rightarrow> PAYLOAD_TYPE \<Rightarrow> SweepBaseInit" where
  "OneSweep_pairs device deviceInfo sortingOrder keyType payloadType =
     \<lparr>init_device = device, init_deviceInfo = deviceInfo, init_sortingOrder = sortingOrder,
      init_keyType = keyType, init_payloadType = Some payloadType, init_sortName = ''OneSweep '',
      init_radixPasses = 4, init_radix = 256, init_partitionSize = push_bit 13 1\<rparr>"

subsection \<open>Barriers and the buffers the kernels touch\<close>





text \<open>A sorter with seven distinct buffers, an empty command list and no keys.\<close>

definition emptySorter :: OneSweep where
  "emptySorter =
     \<lparr>m_cmdList = [], m_sortBuffer = 0, m_altBuffer = 1, m_sortPayloadBuffer = 2,
      m_altPayloadBuffer = 3, m_globalHistBuffer = 4, m_passHistBuffer = 5, m_indexBuffer = 6,
      m_numKeys = 0, m_partitions = 0, m_globalHistPartitions = 0, k_radixPasses = 4\<rparr>"


section \<open>Device side: the kernels\<close>

subsection \<open>Key transform\<close>

text \<open>Modelled from the spec: the key transform, which lives in shader code that is not among
  the sources. Keys are 32-bit patterns. By section 4.1, unsigned keys are left as they are,
  signed integers flip their sign bit, and floating-point keys flip their sign bit when it
  is clear and invert all bits when it is set.\<close>

definition keyToUint :: "KEY_TYPE \<Rightarrow> u32 \<Rightarrow> u32" where
  "keyToUint keyType k =
     (case keyType of
        KEY_UINT32 \<Rightarrow> k
      | KEY_INT32 \<Rightarrow> k XOR 0x80000000
      | KEY_FLOAT32 \<Rightarrow> (if bit k 31 then NOT k else k XOR 0x80000000))"

text \<open>Modelled from the spec: the inverse of the mapping above, from the same absent shader
  code. A result with the top bit set came from a pattern whose sign bit was flipped or, for
  floating point, was clear.\<close>

definition uintToKey :: "KEY_TYPE \<Rightarrow> u32 \<Rightarrow> u32" where
  "uintToKey keyType u =
     (case keyType of
        KEY_UINT32 \<Rightarrow> u
      | KEY_INT32 \<Rightarrow> u XOR 0x80000000
      | KEY_FLOAT32 \<Rightarrow> (if bit u 31 then u XOR 0x80000000 else NOT u))"

text \<open>Modelled from the spec: the forward transform of the absent shader code. By section 4.1 a
  descending sort inverts all bits once more.\<close>

definition forwardTransform :: "ORDER \<Rightarrow> KEY_TYPE \<Rightarrow> u32 \<Rightarrow> u32" where
  "forwardTransform sortingOrder keyType k =
     (case sortingOrder of
        ORDER_ASCENDING \<Rightarrow> keyToUint keyType k
      | ORDER_DESCENDING \<Rightarrow> NOT (keyToUint keyType k))"

text \<open>Modelled from the spec: the inverse transform of the absent shader code, which undoes
  the steps of the forward transform in the opposite order.\<close>

definition inverseTransform :: "ORDER \<Rightarrow> KEY_TYPE \<Rightarrow> u32 \<Rightarrow> u32" where
  "inverseTransform sortingOrder keyType u =
     (case sortingOrder of
        ORDER_ASCENDING \<Rightarrow> uintToKey keyType u
      | ORDER_DESCENDING \<Rightarrow> uintToKey keyType (NOT u))"

text \<open>What a key type reads a bit pattern as, for the purpose of ordering: the unsigned value,
  the two's-complement value, or, for floating point, sign and magnitude with every pattern
  of set sign bit below every pattern of clear sign bit. The last is the total order of
  IEEE 754, in which \<open>-0\<close> precedes \<open>+0\<close> and a NaN is a bit pattern like any other.\<close>

definition keyValue :: "KEY_TYPE \<Rightarrow> u32 \<Rightarrow> int" where
  "keyValue keyType k =
     (case keyType of
        KEY_UINT32 \<Rightarrow> uint k
      | KEY_INT32 \<Rightarrow> sint k
      | KEY_FLOAT32 \<Rightarrow>
          (if bit k 31 then - 1 - uint (k AND 0x7FFFFFFF) else uint (k AND 0x7FFFFFFF)))"

subsection \<open>Digits, partitions and histograms\<close>

text \<open>The four kernels are shader code that is not among the sources. What follows renders
  the spec's description of the stages (sections 2 and 4.2 to 4.5) as functions on buffer
  contents. A counter is a natural number; a key or a payload is a 32-bit word.\<close>

text \<open>Modelled from the spec: digit extraction in the absent kernels, the 8-bit digit of a key
  at a radix shift.\<close>

definition digitOf :: "u32 \<Rightarrow> u32 \<Rightarrow> nat" where
  "digitOf radixShift k = unat (drop_bit (unat radixShift) k AND 0xFF)"

text \<open>Modelled from the spec: one bin of a digit histogram that an absent kernel builds over
  a sequence of keys.\<close>

definition countDigit :: "u32 \<Rightarrow> nat \<Rightarrow> u32 list \<Rightarrow> nat" where
  "countDigit radixShift d ks = length (filter (\<lambda>k. digitOf radixShift k = d) ks)"

text \<open>Modelled from the spec: the slice that partition \<open>t\<close> of an absent kernel works on, at
  most \<open>sz\<close> elements from position \<open>t * sz\<close> on, bounded to the first \<open>n\<close> elements of the
  buffer.\<close>

definition partitionSlice :: "nat \<Rightarrow> nat \<Rightarrow> 'a list \<Rightarrow> nat \<Rightarrow> 'a list" where
  "partitionSlice sz n xs t = take sz (drop (t * sz) (take n xs))"

text \<open>The histogram table, indexed by pass and digit value. It stands for what the global
  histogram buffer and the seed values in the pass histogram buffer hold, whatever their
  layout.\<close>

type_synonym histogram = "nat \<Rightarrow> nat \<Rightarrow> nat"

text \<open>Modelled from the spec: the absent kernel of stage 1, Reset. Every histogram slot becomes
  zero.\<close>

definition InitSweep :: histogram where
  "InitSweep = (\<lambda>p d. 0)"

text \<open>Modelled from the spec: the absent kernel of stage 2, Global Histogram. Every partition
  counts the four digits of the keys of its slice, and its counts are added to the shared
  table.\<close>

definition GlobalHist :: "nat \<Rightarrow> nat \<Rightarrow> nat \<Rightarrow> u32 list \<Rightarrow> histogram \<Rightarrow> histogram" where
  "GlobalHist sz parts n ks h =
     (\<lambda>p d. if p < 4
        then h p d + sum_list (map (\<lambda>t. countDigit (of_nat (8 * p)) d (partitionSlice sz n ks t))
                                [0..<parts])
        else h p d)"

text \<open>Modelled from the spec: the absent kernel of stage 3, Exclusive Scan. For each pass, the
  bin of digit \<open>d\<close> becomes the sum of the bins of the smaller digits.\<close>

definition Scan :: "nat \<Rightarrow> histogram \<Rightarrow> histogram" where
  "Scan passes h = (\<lambda>p d. if p < passes then sum_list (map (h p) [0..<d]) else h p d)"

subsection \<open>Digit-binning pass with look-back\<close>

text \<open>Modelled from the spec: the look-back of the absent digit-binning kernel, for tile \<open>t\<close>
  and one digit, given the local count \<open>loc j\<close> of every tile \<open>j\<close>.
  Walking back from tile \<open>t - 1\<close>, the tile adds the inclusive count of a predecessor it finds
  aggregated and stops, or adds the local count of a predecessor it finds only local and
  walks on; tile 0 has nothing to look back to. Which of the two a tile finds depends on
  the scheduling; \<open>seen t j\<close> says that tile \<open>t\<close> finds tile \<open>j\<close> aggregated. The inclusive
  count of a tile is its own exclusive prefix plus its local count.\<close>

function exclusivePrefix :: "(nat \<Rightarrow> nat \<Rightarrow> bool) \<Rightarrow> (nat \<Rightarrow> nat) \<Rightarrow> nat \<Rightarrow> nat"
  and lookBack :: "(nat \<Rightarrow> nat \<Rightarrow> bool) \<Rightarrow> (nat \<Rightarrow> nat) \<Rightarrow> nat \<Rightarrow> nat \<Rightarrow> nat" where
  "exclusivePrefix seen loc t = lookBack seen loc t t"
| "lookBack seen loc t 0 = 0"
| "lookBack seen loc t (Suc j) =
     (if seen t j then exclusivePrefix seen loc j + loc j
      else loc j + lookBack seen loc t j)"
  by pat_completeness auto
termination
  by (relation "measure (\<lambda>x. case x of Inl (seen, loc, t) \<Rightarrow> 2 * t + 1
                                      | Inr (seen, loc, t, j) \<Rightarrow> 2 * j)") auto

text \<open>Modelled from the spec: the rank that the absent digit-binning kernel gives the key at
  position \<open>j\<close> of a slice, the number of keys before it in the slice that have the same
  digit.\<close>

definition rankWithinTile :: "u32 \<Rightarrow> u32 list \<Rightarrow> nat \<Rightarrow> nat" where
  "rankWithinTile radixShift tile j =
     countDigit radixShift (digitOf radixShift (tile ! j)) (take j tile)"

text \<open>Modelled from the spec: the destination that the absent digit-binning kernel computes
  for the key at position \<open>j\<close> of tile \<open>t\<close>, the global offset of its digit, plus the
  exclusive prefix of the tile for this digit, plus its rank in the tile.\<close>

definition destination ::
    "(nat \<Rightarrow> nat \<Rightarrow> bool) \<Rightarrow> nat \<Rightarrow> nat \<Rightarrow> u32 \<Rightarrow> (nat \<Rightarrow> nat) \<Rightarrow> u32 list \<Rightarrow> nat \<Rightarrow> nat \<Rightarrow> nat" where
  "destination seen sz n radixShift globalDigitOffset ks t j =
     (let tile = partitionSlice sz n ks t;
          d = digitOf radixShift (tile ! j)
      in globalDigitOffset d
         + exclusivePrefix seen (\<lambda>t'. countDigit radixShift d (partitionSlice sz n ks t')) t
         + rankWithinTile radixShift tile j)"

text \<open>Modelled from the spec: the writes of tile \<open>t\<close> of the absent digit-binning kernel into
  an alternate buffer. For every key of its slice there is one, of the key or of the payload
  at the key's position, to the destination of the key.\<close>

definition tileWrites ::
    "(nat \<Rightarrow> nat \<Rightarrow> nat) \<Rightarrow> nat \<Rightarrow> nat \<Rightarrow> u32 list \<Rightarrow> 'a list \<Rightarrow> nat \<Rightarrow> (nat \<times> 'a) list" where
  "tileWrites dest sz n ks vals t =
     map (\<lambda>j. (dest t j, partitionSlice sz n vals t ! j))
       [0..<length (partitionSlice sz n ks t)]"

text \<open>Modelled from the spec: one write of the absent kernel into a buffer.\<close>

definition store :: "nat \<times> 'a \<Rightarrow> 'a list \<Rightarrow> 'a list" where
  "store w out = out[fst w := snd w]"

text \<open>Modelled from the spec: the scatter of the absent digit-binning kernel, the writes of
  all tiles of a dispatch.\<close>

definition scatter ::
    "(nat \<Rightarrow> nat \<Rightarrow> nat) \<Rightarrow> nat \<Rightarrow> nat \<Rightarrow> nat \<Rightarrow> u32 list \<Rightarrow> 'a list \<Rightarrow> 'a list \<Rightarrow> 'a list" where
  "scatter dest sz n parts ks vals out =
     fold store (concat (map (tileWrites dest sz n ks vals) [0..<parts])) out"

subsection \<open>Running a command list\<close>

text \<open>The device: the contents of the key and payload buffers, and the histogram table. The
  published tile counts and the tile counters are not stored: the look-back above computes
  what a tile reads from them.\<close>

record device =
  mem :: "resource \<Rightarrow> u32 list"
  hist :: histogram

text \<open>The absent kernels are compiled for a partition size of the digit-binning pass and one
  of the global histogram; \<open>aggregatedSeen\<close> stands for the scheduling of the look-back.\<close>

record kernels =
  aggregatedSeen :: "nat \<Rightarrow> nat \<Rightarrow> bool"
  partitionSize :: nat
  globalHistPartitionSize :: nat

text \<open>Modelled from the spec: the absent kernel of stage 4, one digit-binning pass. It reads the
  keys of the source buffer and the offsets of its digit, and scatters keys and payloads
  into the alternate buffers.\<close>

definition DigitBinningPass ::
    "kernels \<Rightarrow> resource \<Rightarrow> resource \<Rightarrow> resource \<Rightarrow> resource \<Rightarrow> nat \<Rightarrow> nat \<Rightarrow> u32
      \<Rightarrow> device \<Rightarrow> device" where
  "DigitBinningPass K src dst srcP dstP n parts radixShift dv =
     (let ks = mem dv src;
          dest = destination (aggregatedSeen K) (partitionSize K) n radixShift
                   (hist dv (unat radixShift div 8)) ks;
          keysOut = scatter dest (partitionSize K) n parts ks ks (mem dv dst);
          payloadsOut = scatter dest (partitionSize K) n parts ks (mem dv srcP) (mem dv dstP)
      in dv\<lparr>mem := (mem dv)(dst := keysOut, dstP := payloadsOut)\<rparr>)"

text \<open>Modelled from the spec: what the device does for one command of the list, each
  dispatch running its absent kernel on the buffers and counts it is given. A barrier
  changes no contents.\<close>

fun exec :: "kernels \<Rightarrow> cmd \<Rightarrow> device \<Rightarrow> device" where
  "exec K (InitSweepDispatch gh ph idx parts) dv = dv\<lparr>hist := InitSweep\<rparr>"
| "exec K (GlobalHistDispatch src gh n parts) dv =
     dv\<lparr>hist := GlobalHist (globalHistPartitionSize K) (unat parts) (unat n)
             (mem dv (resource_of src)) (hist dv)\<rparr>"
| "exec K (ScanDispatch gh ph parts passes) dv = dv\<lparr>hist := Scan (unat passes) (hist dv)\<rparr>"
| "exec K (DigitBinningPassDispatch src dst srcP dstP idx ph n parts radixShift) dv =
     DigitBinningPass K (resource_of src) (resource_of dst) (resource_of srcP) (resource_of dstP)
       (unat n) (unat parts) radixShift dv"
| "exec K (UAVBarrier r) dv = dv"

text \<open>A sort on the device: the commands that \<open>PrepareSortCmdList\<close> records, run in order.\<close>

definition runSort :: "kernels \<Rightarrow> OneSweep \<Rightarrow> device \<Rightarrow> device" where
  "runSort K s dv = fold (exec K) (emitted s) dv"

text \<open>The key-to-slot mapping of a pass: the destination of the key at position \<open>i\<close> of the
  source buffer, which is position \<open>i mod sz\<close> of tile \<open>i div sz\<close>.\<close>

definition slotOf ::
    "(nat \<Rightarrow> nat \<Rightarrow> bool) \<Rightarrow> nat \<Rightarrow> nat \<Rightarrow> u32 \<Rightarrow> (nat \<Rightarrow> nat) \<Rightarrow> u32 list \<Rightarrow> nat \<Rightarrow> nat" where
  "slotOf seen sz n radixShift globalDigitOffset ks i =
     destination seen sz n radixShift globalDigitOffset ks (i div sz) (i mod sz)"

text \<open>The key-to-slot mappings of the digit-binning dispatches of a command list, each taken
  on the device as it is when its dispatch starts.\<close>

fun slotMaps :: "kernels \<Rightarrow> cmd list \<Rightarrow> device \<Rightarrow> (nat \<Rightarrow> nat) list" where
  "slotMaps K [] dv = []"
| "slotMaps K (DigitBinningPassDispatch src dst srcP dstP idx ph n parts radixShift # cs) dv =
     slotOf (aggregatedSeen K) (partitionSize K) (unat n) radixShift
         (hist dv (unat radixShift div 8)) (mem dv (resource_of src))
       # slotMaps K cs
           (exec K (DigitBinningPassDispatch src dst srcP dstP idx ph n parts radixShift) dv)"
| "slotMaps K (c # cs) dv = slotMaps K cs (exec K c dv)"

subsection \<open>The sort as a whole\<close>

text \<open>A sorter and a device fit each other when the four key and payload buffers are distinct
  and hold at least as many elements as there are keys, the partitions of each stage cover
  the keys, and the scan covers the four passes. By the spec (section 6) the base class,
  which is not among the sources, sizes them so.\<close>

definition fits :: "kernels \<Rightarrow> OneSweep \<Rightarrow> device \<Rightarrow> bool" where
  "fits K s dv \<longleftrightarrow>
     distinct [m_sortBuffer s, m_altBuffer s, m_sortPayloadBuffer s, m_altPayloadBuffer s]
     \<and> unat (m_numKeys s) \<le> length (mem dv (m_sortBuffer s))
     \<and> unat (m_numKeys s) \<le> length (mem dv (m_altBuffer s))
     \<and> unat (m_numKeys s) \<le> length (mem dv (m_sortPayloadBuffer s))
     \<and> unat (m_numKeys s) \<le> length (mem dv (m_altPayloadBuffer s))
     \<and> 0 < partitionSize K
     \<and> unat (m_numKeys s) \<le> unat (m_partitions s) * partitionSize K
     \<and> unat (m_numKeys s) \<le> unat (m_globalHistPartitions s) * globalHistPartitionSize K
     \<and> 4 \<le> unat (k_radixPasses s)"

text \<open>Modelled from the spec: the sizing of the sorter for \<open>n\<close> keys, done by the base class,
  which is not among the sources. By section 6 the partition count of a stage is the key
  count divided by the partition size of the stage, rounded up; the constructors fix four
  radix passes.\<close>

definition sorterFor :: "nat \<Rightarrow> nat \<Rightarrow> nat \<Rightarrow> OneSweep" where
  "sorterFor sz gsz n =
     \<lparr>m_cmdList = [], m_sortBuffer = 0, m_altBuffer = 1, m_sortPayloadBuffer = 2,
      m_altPayloadBuffer = 3, m_globalHistBuffer = 4, m_passHistBuffer = 5, m_indexBuffer = 6,
      m_numKeys = of_nat n,
      m_partitions = of_nat ((n + sz - 1) div sz),
      m_globalHistPartitions = of_nat ((n + gsz - 1) div gsz),
      k_radixPasses = 4\<rparr>"

text \<open>Modelled from the spec: the compilation of the absent kernels, for the partition size
  \<open>1 << 13 = 8192\<close> that the constructors fix.\<close>

definition sortKernels :: "(nat \<Rightarrow> nat \<Rightarrow> bool) \<Rightarrow> nat \<Rightarrow> kernels" where
  "sortKernels seen gsz =
     \<lparr>aggregatedSeen = seen, partitionSize = 8192, globalHistPartitionSize = gsz\<rparr>"

text \<open>Modelled from the spec: the filling of the buffers before a sort, done by code that is
  not among the sources. By section 6 the four key and payload buffers are sized to the key
  count.\<close>

definition upload :: "OneSweep \<Rightarrow> u32 list \<Rightarrow> u32 list \<Rightarrow> device" where
  "upload s ks ps =
     \<lparr>mem = (\<lambda>r. [])
        (m_sortBuffer s := ks,
         m_altBuffer s := replicate (length ks) 0,
         m_sortPayloadBuffer s := ps,
         m_altPayloadBuffer s := replicate (length ks) 0),
      hist = (\<lambda>p d. 0)\<rparr>"

text \<open>Modelled from the spec: a sort call, whose driver is not among the sources. The keys go
  through the forward transform into the sort buffer and the payloads into the sort payload
  buffer; the commands of \<open>PrepareSortCmdList\<close> run on the device; the sorted keys are read
  from the sort buffer through the inverse transform, the payloads from the sort payload
  buffer.\<close>

definition OneSweepSort ::
    "(nat \<Rightarrow> nat \<Rightarrow> bool) \<Rightarrow> nat \<Rightarrow> ORDER \<Rightarrow> KEY_TYPE \<Rightarrow> u32 list \<Rightarrow> u32 list
      \<Rightarrow> u32 list \<times> u32 list" where
  "OneSweepSort seen gsz sortingOrder keyType keys payloads =
     (let n = length keys;
          s = sorterFor 8192 gsz n;
          dv = runSort (sortKernels seen gsz) s
                 (upload s (map (forwardTransform sortingOrder keyType) keys) payloads);
          s' = PrepareSortCmdList s
      in (map (inverseTransform sortingOrder keyType) (take n (mem dv (m_sortBuffer s'))),
          take n (mem dv (m_sortPayloadBuffer s'))))"

text \<open>The requested order on a sequence of keys: their values do not decrease for an
  ascending sort and do not increase for a descending one.\<close>

definition inOrder :: "ORDER \<Rightarrow> KEY_TYPE \<Rightarrow> u32 list \<Rightarrow> bool" where
  "inOrder sortingOrder keyType ks =
     (case sortingOrder of
        ORDER_ASCENDING \<Rightarrow> sorted_wrt (\<lambda>a b. keyValue keyType a \<le> keyValue keyType b) ks
      | ORDER_DESCENDING \<Rightarrow> sorted_wrt (\<lambda>a b. keyValue keyType b \<le> keyValue keyType a) ks)"

subsection \<open>Arrangements\<close>

text \<open>\<open>\<pi>\<close> arranges the first \<open>n\<close> elements of \<open>xs\<close> into the first \<open>n\<close> positions of \<open>ys\<close>:
  it is a bijection on the positions, and the element at position \<open>i\<close> of \<open>xs\<close> is at
  position \<open>\<pi> i\<close> of \<open>ys\<close>.\<close>

definition arranges :: "(nat \<Rightarrow> nat) \<Rightarrow> nat \<Rightarrow> 'a list \<Rightarrow> 'a list \<Rightarrow> bool" where
  "arranges \<pi> n xs ys \<longleftrightarrow>
     bij_betw \<pi> {..<n} {..<n} \<and> n \<le> length xs \<and> n \<le> length ys
     \<and> (\<forall>i<n. ys ! \<pi> i = xs ! i)"

text \<open>\<open>\<pi>\<close> puts the first \<open>n\<close> elements of \<open>xs\<close> in the order of their values under \<open>f\<close>,
  elements of equal value in the order of their positions.\<close>

definition stablyOrders :: "(nat \<Rightarrow> nat) \<Rightarrow> nat \<Rightarrow> ('a \<Rightarrow> nat) \<Rightarrow> 'a list \<Rightarrow> bool" where
  "stablyOrders \<pi> n f xs \<longleftrightarrow>
     (\<forall>i<n. \<forall>j<n. \<pi> i < \<pi> j \<longleftrightarrow> f (xs ! i) < f (xs ! j) \<or> f (xs ! i) = f (xs ! j) \<and> i < j)"

text \<open>The low \<open>r\<close> bits of a key.\<close>

definition lowBits :: "nat \<Rightarrow> u32 \<Rightarrow> nat" where
  "lowBits r k = unat k mod 2 ^ r"

section \<open>Host side: properties of the command list\<close>

lemma digitBinningIteration_eq:
  "digitBinningIteration radixShift s =
     s\<lparr>m_cmdList := m_cmdList s @
          [DigitBinningPassDispatch (GPUVirtualAddress (m_sortBuffer s))
             (GPUVirtualAddress (m_altBuffer s))
             (GPUVirtualAddress (m_sortPayloadBuffer s))
             (GPUVirtualAddress (m_altPayloadBuffer s))
             (GPUVirtualAddress (m_indexBuffer s))
             (m_passHistBuffer s) (m_numKeys s) (m_partitions s) radixShift,
           UAVBarrier (m_sortBuffer s), UAVBarrier (m_sortPayloadBuffer s),
           UAVBarrier (m_altBuffer s), UAVBarrier (m_altPayloadBuffer s)],
       m_sortBuffer := m_altBuffer s, m_altBuffer := m_sortBuffer s,
       m_sortPayloadBuffer := m_altPayloadBuffer s,
       m_altPayloadBuffer := m_sortPayloadBuffer s\<rparr>"
  by (simp add: digitBinningIteration_def Let_def UAVBarrierSingle_def record_cmd_def
      swap_sort_alt_def swap_payloads_def GetGPUVirtualAddress_def)

text \<open>The loop runs its body four times, at shifts 0, 8, 16 and 24, and stops at 32.\<close>

lemma digitBinningLoop_unroll:
  "digitBinningLoop 0 s =
     digitBinningIteration 24 (digitBinningIteration 16
       (digitBinningIteration 8 (digitBinningIteration 0 s)))"
proof -
  have a: "digitBinningLoop 0 s = digitBinningLoop 8 (digitBinningIteration 0 s)"
    by (subst digitBinningLoop.simps) simp
  have b: "\<And>t. digitBinningLoop 8 t = digitBinningLoop 16 (digitBinningIteration 8 t)"
    by (subst digitBinningLoop.simps) simp
  have c: "\<And>t. digitBinningLoop 16 t = digitBinningLoop 24 (digitBinningIteration 16 t)"
    by (subst digitBinningLoop.simps) simp
  have d: "\<And>t. digitBinningLoop 24 t = digitBinningLoop 32 (digitBinningIteration 24 t)"
    by (subst digitBinningLoop.simps) simp
  have e: "\<And>t. digitBinningLoop 32 t = t"
    by (subst digitBinningLoop.simps) simp
  show ?thesis by (simp only: a b c d e)
qed

text \<open>The whole of \<open>PrepareSortCmdList\<close>: it appends 26 commands and leaves every other
  member as it was.\<close>

lemma PrepareSortCmdList_eq:
  "PrepareSortCmdList s = s\<lparr>m_cmdList := m_cmdList s @
      [InitSweepDispatch (GPUVirtualAddress (m_globalHistBuffer s))
         (GPUVirtualAddress (m_passHistBuffer s)) (GPUVirtualAddress (m_indexBuffer s))
         (m_partitions s),
       UAVBarrier (m_globalHistBuffer s),
       GlobalHistDispatch (GPUVirtualAddress (m_sortBuffer s))
         (GPUVirtualAddress (m_globalHistBuffer s)) (m_numKeys s) (m_globalHistPartitions s),
       UAVBarrier (m_globalHistBuffer s),
       ScanDispatch (GPUVirtualAddress (m_globalHistBuffer s))
         (GPUVirtualAddress (m_passHistBuffer s)) (m_partitions s) (k_radixPasses s),
       UAVBarrier (m_passHistBuffer s),
       DigitBinningPassDispatch (GPUVirtualAddress (m_sortBuffer s))
         (GPUVirtualAddress (m_altBuffer s)) (GPUVirtualAddress (m_sortPayloadBuffer s))
         (GPUVirtualAddress (m_altPayloadBuffer s)) (GPUVirtualAddress (m_indexBuffer s))
         (m_passHistBuffer s) (m_numKeys s) (m_partitions s) 0,
       UAVBarrier (m_sortBuffer s), UAVBarrier (m_sortPayloadBuffer s),
       UAVBarrier (m_altBuffer s), UAVBarrier (m_altPayloadBuffer s),
       DigitBinningPassDispatch (GPUVirtualAddress (m_altBuffer s))
         (GPUVirtualAddress (m_sortBuffer s)) (GPUVirtualAddress (m_altPayloadBuffer s))
         (GPUVirtualAddress (m_sortPayloadBuffer s)) (GPUVirtualAddress (m_indexBuffer s))
         (m_passHistBuffer s) (m_numKeys s) (m_partitions s) 8,
       UAVBarrier (m_altBuffer s), UAVBarrier (m_altPayloadBuffer s),
       UAVBarrier (m_sortBuffer s), UAVBarrier (m_sortPayloadBuffer s),
       DigitBinningPassDispatch (GPUVirtualAddress (m_sortBuffer s))
         (GPUVirtualAddress (m_altBuffer s)) (GPUVirtualAddress (m_sortPayloadBuffer s))
         (GPUVirtualAddress (m_altPayloadBuffer s)) (GPUVirtualAddress (m_indexBuffer s))
         (m_passHistBuffer s) (m_numKeys s) (m_partitions s) 16,
       UAVBarrier (m_sortBuffer s), UAVBarrier (m_sortPayloadBuffer s),
       UAVBarrier (m_altBuffer s), UAVBarrier (m_altPayloadBuffer s),
       DigitBinningPassDispatch (GPUVirtualAddress (m_altBuffer s))
         (GPUVirtualAddress (m_sortBuffer s)) (GPUVirtualAddress (m_altPayloadBuffer s))
         (GPUVirtualAddress (m_sortPayloadBuffer s)) (GPUVirtualAddress (m_indexBuffer s))
         (m_passHistBuffer s) (m_numKeys s) (m_partitions s) 24,
       UAVBarrier (m_altBuffer s), UAVBarrier (m_altPayloadBuffer s),
       UAVBarrier (m_sortBuffer s), UAVBarrier (m_sortPayloadBuffer s)]\<rparr>"
  by (simp add: PrepareSortCmdList_def Let_def digitBinningLoop_unroll
      digitBinningIteration_eq UAVBarrierSingle_def record_cmd_def GetGPUVirtualAddress_def)

lemma emitted_eq:
  "emitted s =
      [InitSweepDispatch (GPUVirtualAddress (m_globalHistBuffer s))
         (GPUVirtualAddress (m_passHistBuffer s)) (GPUVirtualAddress (m_indexBuffer s))
         (m_partitions s),
       UAVBarrier (m_globalHistBuffer s),
       GlobalHistDispatch (GPUVirtualAddress (m_sortBuffer s))
         (GPUVirtualAddress (m_globalHistBuffer s)) (m_numKeys s) (m_globalHistPartitions s),
       UAVBarrier (m_globalHistBuffer s),
       ScanDispatch (GPUVirtualAddress (m_globalHistBuffer s))
         (GPUVirtualAddress (m_passHistBuffer s)) (m_partitions s) (k_radixPasses s),
       UAVBarrier (m_passHistBuffer s),
       DigitBinningPassDispatch (GPUVirtualAddress (m_sortBuffer s))
         (GPUVirtualAddress (m_altBuffer s)) (GPUVirtualAddress (m_sortPayloadBuffer s))
         (GPUVirtualAddress (m_altPayloadBuffer s)) (GPUVirtualAddress (m_indexBuffer s))
         (m_passHistBuffer s) (m_numKeys s) (m_partitions s) 0,
       UAVBarrier (m_sortBuffer s), UAVBarrier (m_sortPayloadBuffer s),
       UAVBarrier (m_altBuffer s), UAVBarrier (m_altPayloadBuffer s),
       DigitBinningPassDispatch (GPUVirtualAddress (m_altBuffer s))
         (GPUVirtualAddress (m_sortBuffer s)) (GPUVirtualAddress (m_altPayloadBuffer s))
         (GPUVirtualAddress (m_sortPayloadBuffer s)) (GPUVirtualAddress (m_indexBuffer s))
         (m_passHistBuffer s) (m_numKeys s) (m_partitions s) 8,
       UAVBarrier (m_altBuffer s), UAVBarrier (m_altPayloadBuffer s),
       UAVBarrier (m_sortBuffer s), UAVBarrier (m_sortPayloadBuffer s),
       DigitBinningPassDispatch (GPUVirtualAddress (m_sortBuffer s))
         (GPUVirtualAddress (m_altBuffer s)) (GPUVirtualAddress (m_sortPayloadBuffer s))
         (GPUVirtualAddress (m_altPayloadBuffer s)) (GPUVirtualAddress (m_indexBuffer s))
         (m_passHistBuffer s) (m_numKeys s) (m_partitions s) 16,
       UAVBarrier (m_sortBuffer s), UAVBarrier (m_sortPayloadBuffer s),
       UAVBarrier (m_altBuffer s), UAVBarrier (m_altPayloadBuffer s),
       DigitBinningPassDispatch (GPUVirtualAddress (m_altBuffer s))
         (GPUVirtualAddress (m_sortBuffer s)) (GPUVirtualAddress (m_altPayloadBuffer s))
         (GPUVirtualAddress (m_sortPayloadBuffer s)) (GPUVirtualAddress (m_indexBuffer s))
         (m_passHistBuffer s) (m_numKeys s) (m_partitions s) 24,
       UAVBarrier (m_altBuffer s), UAVBarrier (m_altPayloadBuffer s),
       UAVBarrier (m_sortBuffer s), UAVBarrier (m_sortPayloadBuffer s)]"
  by (simp add: emitted_def PrepareSortCmdList_eq)

lemma cmdList_PrepareSortCmdList:
  "m_cmdList (PrepareSortCmdList s) = m_cmdList s @ emitted s"
  by (simp add: emitted_eq) (simp add: PrepareSortCmdList_eq)


text \<open>C3: the commands of one call hold exactly four digit-binning dispatches, at the radix
  shifts 0, 8, 16 and 24 in this order, which is strictly increasing.\<close>

theorem four_digit_binning_dispatches:
  "List.map_filter radixShiftArg (emitted s) = [0, 8, 16, 24]
   \<and> length (filter isDigitBinning (emitted s)) = 4
   \<and> sorted_wrt (<) (List.map_filter radixShiftArg (emitted s))
   \<and> m_cmdList (PrepareSortCmdList s) = m_cmdList s @ emitted s"
  by (simp add: emitted_eq List.map_filter_def) (simp add: PrepareSortCmdList_eq)

text \<open>C4: every iteration of the loop exchanges the sort buffer with the alternate buffer and
  the sort payload buffer with the alternate payload buffer, whatever the radix shift; so in
  the four dispatches of a call the destination buffers of each pass are the source buffers of
  the next, and the other way round.\<close>

theorem buffers_swapped_after_each_pass:
  "m_sortBuffer (digitBinningIteration radixShift s) = m_altBuffer s
   \<and> m_altBuffer (digitBinningIteration radixShift s) = m_sortBuffer s
   \<and> m_sortPayloadBuffer (digitBinningIteration radixShift s) = m_altPayloadBuffer s
   \<and> m_altPayloadBuffer (digitBinningIteration radixShift s) = m_sortPayloadBuffer s
   \<and> List.map_filter digitBinningArgs (emitted s) =
       [(m_sortBuffer s, m_altBuffer s, m_sortPayloadBuffer s, m_altPayloadBuffer s, 0),
        (m_altBuffer s, m_sortBuffer s, m_altPayloadBuffer s, m_sortPayloadBuffer s, 8),
        (m_sortBuffer s, m_altBuffer s, m_sortPayloadBuffer s, m_altPayloadBuffer s, 16),
        (m_altBuffer s, m_sortBuffer s, m_altPayloadBuffer s, m_sortPayloadBuffer s, 24)]"
  by (simp add: emitted_eq List.map_filter_def) (simp add: digitBinningIteration_eq)

text \<open>C9: the loop is four iterations, each with one exchange of the key buffers and one of
  the payload buffers; after the call the four handles are what they were before it, and the
  last digit-binning dispatch scatters into the buffers that were the sort buffer and the
  sort payload buffer before the call.\<close>

theorem handles_restored_after_call:
  "digitBinningLoop 0 s =
     digitBinningIteration 24 (digitBinningIteration 16
       (digitBinningIteration 8 (digitBinningIteration 0 s)))
   \<and> m_sortBuffer (PrepareSortCmdList s) = m_sortBuffer s
   \<and> m_altBuffer (PrepareSortCmdList s) = m_altBuffer s
   \<and> m_sortPayloadBuffer (PrepareSortCmdList s) = m_sortPayloadBuffer s
   \<and> m_altPayloadBuffer (PrepareSortCmdList s) = m_altPayloadBuffer s
   \<and> last (List.map_filter digitBinningArgs (emitted s)) =
       (m_altBuffer s, m_sortBuffer s, m_altPayloadBuffer s, m_sortPayloadBuffer s, 24)"
  by (simp add: emitted_eq List.map_filter_def) (simp add: PrepareSortCmdList_eq digitBinningLoop_unroll)

text \<open>C10: both constructors pass 4 radix passes, 256 radix digits and a partition size of
  \<open>1 << 13 = 8192\<close> to the base class, whatever the device descriptor holds, and the two
  argument lists differ in the payload type only.\<close>

theorem constructors_fix_radix_parameters:
  "init_radixPasses (OneSweep_keysOnly device deviceInfo sortingOrder keyType) = 4
   \<and> init_radix (OneSweep_keysOnly device deviceInfo sortingOrder keyType) = 256
   \<and> init_partitionSize (OneSweep_keysOnly device deviceInfo sortingOrder keyType) = 8192
   \<and> init_radixPasses (OneSweep_pairs device deviceInfo sortingOrder keyType payloadType) = 4
   \<and> init_radix (OneSweep_pairs device deviceInfo sortingOrder keyType payloadType) = 256
   \<and> init_partitionSize (OneSweep_pairs device deviceInfo sortingOrder keyType payloadType) = 8192
   \<and> init_partitionSize (OneSweep_keysOnly device deviceInfo sortingOrder keyType) =
       init_partitionSize (OneSweep_keysOnly device deviceInfo' sortingOrder keyType)
   \<and> init_partitionSize (OneSweep_pairs device deviceInfo sortingOrder keyType payloadType) =
       init_partitionSize (OneSweep_pairs device deviceInfo' sortingOrder keyType payloadType)
   \<and> init_payloadType (OneSweep_keysOnly device deviceInfo sortingOrder keyType) = None
   \<and> OneSweep_pairs device deviceInfo sortingOrder keyType payloadType =
       (OneSweep_keysOnly device deviceInfo sortingOrder keyType)
         \<lparr>init_payloadType := Some payloadType\<rparr>"
  by (simp add: OneSweep_keysOnly_def OneSweep_pairs_def)

text \<open>C7 as stated fails: with a key count of zero the call still records dispatches.\<close>

theorem zero_keys_still_dispatched:
  "m_numKeys emptySorter = 0 \<and> filter isDispatch (emitted emptySorter) \<noteq> []"
  by (simp add: emitted_eq) (simp add: emptySorter_def)

text \<open>C7, amended: \<open>PrepareSortCmdList\<close> checks nothing and reports nothing. For every
  configuration it records the same seven dispatches (reset, global histogram, scan and four
  digit-binning passes) and changes no member other than the command list.\<close>

theorem no_validation_in_PrepareSortCmdList:
  "map isDigitBinning (filter isDispatch (emitted s)) =
       [False, False, False, True, True, True, True]
   \<and> PrepareSortCmdList s = s\<lparr>m_cmdList := m_cmdList s @ emitted s\<rparr>"
  by (simp add: emitted_eq) (simp add: PrepareSortCmdList_eq)



section \<open>Device side: properties of the key transform\<close>

lemma bit31_xor: "bit (k XOR (0x80000000 :: u32)) 31 = (\<not> bit k 31)"
  by (simp add: bit_simps)

lemma bit31_not: "bit (NOT k :: u32) 31 = (\<not> bit k 31)"
  by (simp add: bit_simps)

lemma xor_xor_sign: "(k XOR 0x80000000) XOR (0x80000000 :: u32) = k"
  by (simp add: xor.assoc)

lemma uintToKey_keyToUint: "uintToKey keyType (keyToUint keyType k) = k"
  by (cases keyType) (simp_all add: uintToKey_def keyToUint_def bit31_xor bit31_not xor.assoc)

lemma keyToUint_uintToKey: "keyToUint keyType (uintToKey keyType u) = u"
  by (cases keyType) (simp_all add: uintToKey_def keyToUint_def bit31_xor bit31_not xor.assoc)

text \<open>C6: for every 32-bit pattern, key type and order, the inverse transform after the forward
  transform gives the pattern back, and the other way round; both are bijections on the
  32-bit patterns.\<close>

theorem key_transform_round_trip:
  "inverseTransform sortingOrder keyType (forwardTransform sortingOrder keyType k) = k
   \<and> forwardTransform sortingOrder keyType (inverseTransform sortingOrder keyType u) = u
   \<and> bij (forwardTransform sortingOrder keyType)
   \<and> bij (inverseTransform sortingOrder keyType)"
proof -
  have a: "\<And>k. inverseTransform sortingOrder keyType (forwardTransform sortingOrder keyType k) = k"
    by (cases sortingOrder)
      (simp_all add: inverseTransform_def forwardTransform_def uintToKey_keyToUint)
  have b: "\<And>u. forwardTransform sortingOrder keyType (inverseTransform sortingOrder keyType u) = u"
    by (cases sortingOrder)
      (simp_all add: inverseTransform_def forwardTransform_def keyToUint_uintToKey)
  have "bij (forwardTransform sortingOrder keyType)"
    by (rule bij_betw_byWitness [where f' = "inverseTransform sortingOrder keyType"])
      (simp_all add: a b)
  moreover have "bij (inverseTransform sortingOrder keyType)"
    by (rule bij_betw_byWitness [where f' = "forwardTransform sortingOrder keyType"])
      (simp_all add: a b)
  ultimately show ?thesis by (simp add: a b)
qed


lemma uint_split31:
  "uint (k :: u32) = uint (k AND 0x7FFFFFFF) + (if bit k 31 then 2 ^ 31 else 0)"
proof -
  define T where "T = take_bit 31 (uint k)"
  have m: "(0x7FFFFFFF :: u32) = mask 31"
    by (simp add: mask_eq_exp_minus_1)
  have "uint k = take_bit (Suc 31) (uint k)"
    using uint_bounded [of k] by (simp add: take_bit_int_eq_self)
  also have "\<dots> = 2 ^ 31 * of_bool (bit (uint k) 31) + take_bit 31 (uint k)"
    by (rule take_bit_Suc_from_most)
  finally have A: "uint k = 2 ^ 31 * of_bool (bit k 31) + T"
    by (simp add: bit_uint_iff T_def)
  have B: "uint (k AND 0x7FFFFFFF) = T"
    unfolding m T_def by (simp add: unsigned_take_bit_eq flip: take_bit_eq_mask)
  from A B show ?thesis
    by (cases "bit k 31") simp_all
qed

lemma sint_as_uint: "sint (k :: u32) = uint k - (if bit k 31 then 2 ^ 32 else 0)"
proof -
  have "sint k = signed_take_bit 31 (uint k)"
    by (simp add: sint_uint)
  also have "\<dots> = take_bit (Suc 31) (uint k) - 2 ^ Suc 31 * of_bool (bit (uint k) 31)"
    by (rule signed_take_bit_eq_take_bit_minus)
  also have "take_bit (Suc 31) (uint k) = uint k"
    using uint_bounded [of k] by (simp add: take_bit_int_eq_self)
  finally show ?thesis by (simp add: bit_uint_iff)
qed

lemma uint_xor_sign:
  "uint (k XOR (0x80000000 :: u32)) = uint k + (if bit k 31 then - (2 ^ 31) else 2 ^ 31)"
proof -
  have "uint (k XOR 0x80000000) = uint k XOR 2 ^ 31"
    by (simp add: uint_xor)
  also have "\<dots> = flip_bit 31 (uint k)"
    by (simp add: flip_bit_eq_xor)
  also have "\<dots> = uint k + (if bit k 31 then - (2 ^ 31) else 2 ^ 31)"
    by (simp add: flip_bit_eq_if set_bit_eq unset_bit_eq bit_uint_iff)
  finally show ?thesis .
qed

lemma uint_not32: "uint (NOT k :: u32) = 2 ^ 32 - 1 - uint k"
proof -
  have "NOT k = - 1 - k"
    by (simp add: not_eq_complement)
  then have "uint (NOT k) = uint (- 1 - k)" by simp
  also have "\<dots> = uint (- 1 :: u32) - uint k"
    using uint_bounded [of k] by (subst uint_sub_if') (simp add: unsigned_minus_1_eq_mask mask_eq_exp_minus_1)
  finally show ?thesis by (simp add: unsigned_minus_1_eq_mask mask_eq_exp_minus_1)
qed

text \<open>The forward transform shifts the value of a key by \<open>2 ^ 31\<close>, except that unsigned
  keys are left as they are.\<close>

lemma uint_keyToUint:
  "uint (keyToUint keyType k) =
     keyValue keyType k + (if keyType = KEY_UINT32 then 0 else 2 ^ 31)"
proof (cases keyType)
  case KEY_UINT32
  then show ?thesis by (simp add: keyToUint_def keyValue_def)
next
  case KEY_INT32
  then show ?thesis
    by (simp add: keyToUint_def keyValue_def uint_xor_sign sint_as_uint)
next
  case KEY_FLOAT32
  show ?thesis
  proof (cases "bit k 31")
    case True
    with KEY_FLOAT32 uint_split31 [of k] show ?thesis
      by (simp add: keyToUint_def keyValue_def uint_not32)
  next
    case False
    with KEY_FLOAT32 uint_split31 [of k] show ?thesis
      by (simp add: keyToUint_def keyValue_def uint_xor_sign)
  qed
qed

lemma keyToUint_le_iff:
  "keyToUint keyType a \<le> keyToUint keyType b \<longleftrightarrow> keyValue keyType a \<le> keyValue keyType b"
  by (simp add: word_le_def uint_keyToUint)

lemma forwardTransform_le_iff:
  "forwardTransform sortingOrder keyType a \<le> forwardTransform sortingOrder keyType b \<longleftrightarrow>
     (case sortingOrder of
        ORDER_ASCENDING \<Rightarrow> keyValue keyType a \<le> keyValue keyType b
      | ORDER_DESCENDING \<Rightarrow> keyValue keyType b \<le> keyValue keyType a)"
proof (cases sortingOrder)
  case ORDER_ASCENDING
  then show ?thesis by (simp add: forwardTransform_def keyToUint_le_iff)
next
  case ORDER_DESCENDING
  have "NOT (keyToUint keyType a) \<le> NOT (keyToUint keyType b)
      \<longleftrightarrow> keyToUint keyType b \<le> keyToUint keyType a"
    by (simp add: word_le_def uint_not32)
  with ORDER_DESCENDING show ?thesis by (simp add: forwardTransform_def keyToUint_le_iff)
qed

section \<open>Device side: one digit-binning pass\<close>

subsection \<open>Counting\<close>

lemma countDigit_append:
  "countDigit radixShift d (xs @ ys) = countDigit radixShift d xs + countDigit radixShift d ys"
  by (simp add: countDigit_def)

lemma countDigit_mset:
  "mset xs = mset ys \<Longrightarrow> countDigit radixShift d xs = countDigit radixShift d ys"
proof -
  assume eq: "mset xs = mset ys"
  have "\<And>zs. countDigit radixShift d zs
      = size (filter_mset (\<lambda>k. digitOf radixShift k = d) (mset zs))"
    by (simp add: countDigit_def flip: mset_filter)
  with eq show ?thesis by simp
qed

text \<open>The slices of the first \<open>T\<close> partitions tile the first \<open>T * sz\<close> elements.\<close>

lemma take_Suc_chunk:
  "take (Suc T * sz) ys = take (T * sz) ys @ take sz (drop (T * sz) ys)"
proof -
  have "Suc T * sz = T * sz + sz" by simp
  then show ?thesis by (simp only: take_add)
qed

lemma sum_chunk_counts:
  "sum_list (map (\<lambda>t. countDigit radixShift d (take sz (drop (t * sz) ys))) [0..<T])
     = countDigit radixShift d (take (T * sz) ys)"
proof (induction T)
  case 0
  show ?case by (simp add: countDigit_def)
next
  case (Suc T)
  have "sum_list (map (\<lambda>t. countDigit radixShift d (take sz (drop (t * sz) ys))) [0..<Suc T])
      = countDigit radixShift d (take (T * sz) ys)
        + countDigit radixShift d (take sz (drop (T * sz) ys))"
    using Suc.IH by simp
  also have "\<dots> = countDigit radixShift d (take (Suc T * sz) ys)"
    by (simp only: take_Suc_chunk countDigit_append)
  finally show ?case .
qed

lemma sum_partition_counts:
  "sum_list (map (\<lambda>t. countDigit radixShift d (partitionSlice sz n ks t)) [0..<T])
     = countDigit radixShift d (take (T * sz) (take n ks))"
  unfolding partitionSlice_def by (rule sum_chunk_counts)

text \<open>Whatever the tiles find aggregated, the look-back of tile \<open>t\<close> sums the local counts
  of the tiles before it.\<close>

lemma lookBack_sum:
  "exclusivePrefix seen loc t = sum_list (map loc [0..<t])"
  "lookBack seen loc t j = sum_list (map loc [0..<j])"
  by (induction seen loc t and seen loc t j rule: exclusivePrefix_lookBack.induct) simp_all


subsection \<open>Destinations in terms of the whole buffer\<close>

lemma partitionSlice_nth:
  assumes "j < sz" "t * sz + j < n" "n \<le> length xs"
  shows "partitionSlice sz n xs t ! j = xs ! (t * sz + j)"
  using assms by (simp add: partitionSlice_def)

lemma length_partitionSlice:
  "n \<le> length xs \<Longrightarrow> length (partitionSlice sz n xs t) = min sz (n - t * sz)"
  by (simp add: partitionSlice_def)

text \<open>The slot of a key is the global offset of its digit plus the number of keys with this
  digit before it in the buffer.\<close>

lemma slotOf_eq:
  assumes sz: "0 < sz" and i: "i < n" and n: "n \<le> length ks"
  shows "slotOf seen sz n radixShift offs ks i =
     offs (digitOf radixShift (ks ! i))
       + countDigit radixShift (digitOf radixShift (ks ! i)) (take i ks)"
proof -
  define t j ys d where "t = i div sz" and "j = i mod sz" and "ys = take n ks"
    and "d = digitOf radixShift (ks ! i)"
  have tj: "t * sz + j = i" and j: "j < sz"
    using sz by (simp_all add: t_def j_def)
  have key: "partitionSlice sz n ks t ! j = ks ! i"
    using partitionSlice_nth [of j sz t n ks] tj j i n by simp
  have "take j (partitionSlice sz n ks t) = take j (drop (t * sz) ys)"
    using j by (simp add: partitionSlice_def ys_def min_def)
  then have rank: "rankWithinTile radixShift (partitionSlice sz n ks t) j
      = countDigit radixShift d (take j (drop (t * sz) ys))"
    by (simp add: rankWithinTile_def key d_def)
  have look: "exclusivePrefix seen (\<lambda>t'. countDigit radixShift d (partitionSlice sz n ks t')) t
      = countDigit radixShift d (take (t * sz) ys)"
    by (simp only: lookBack_sum sum_partition_counts ys_def)
  have "take i ys = take (t * sz) ys @ take j (drop (t * sz) ys)"
    using tj by (simp only: take_add [symmetric])
  moreover have "take i ys = take i ks"
    using i by (simp add: ys_def min_def)
  ultimately have split: "countDigit radixShift d (take i ks)
      = countDigit radixShift d (take (t * sz) ys)
        + countDigit radixShift d (take j (drop (t * sz) ys))"
    by (simp only: countDigit_append [symmetric])
  have "slotOf seen sz n radixShift offs ks i
      = offs d + exclusivePrefix seen (\<lambda>t'. countDigit radixShift d (partitionSlice sz n ks t')) t
        + rankWithinTile radixShift (partitionSlice sz n ks t) j"
    unfolding slotOf_def destination_def Let_def d_def
    by (simp only: key [unfolded t_def j_def] t_def j_def)
  also have "\<dots> = offs d + countDigit radixShift d (take i ks)"
    by (simp only: look rank split add.assoc)
  finally show ?thesis by (simp add: d_def)
qed

subsection \<open>The writes of a dispatch\<close>

lemma tileWrites_eq:
  assumes sz: "0 < sz" and nk: "n \<le> length ks" and nv: "n \<le> length vals"
  shows "tileWrites dest sz n ks vals T =
     map (\<lambda>i. (dest (i div sz) (i mod sz), vals ! i)) [min (T * sz) n..<min (Suc T * sz) n]"
proof (cases "T * sz < n")
  case False
  then show ?thesis
    using nk by (simp add: tileWrites_def length_partitionSlice)
next
  case True
  define len where "len = min sz (n - T * sz)"
  have range: "[min (T * sz) n..<min (Suc T * sz) n] = map (\<lambda>j. j + T * sz) [0..<len]"
    using True by (simp add: len_def map_add_upt min_def add.commute)
  have "tileWrites dest sz n ks vals T
      = map (\<lambda>j. (dest T j, partitionSlice sz n vals T ! j)) [0..<len]"
    using nk by (simp add: tileWrites_def length_partitionSlice len_def)
  also have "\<dots> = map (\<lambda>j. (dest ((j + T * sz) div sz) ((j + T * sz) mod sz),
                              vals ! (j + T * sz))) [0..<len]"
  proof (rule map_cong [OF refl])
    fix j assume "j \<in> set [0..<len]"
    then have "j < sz" "j < n - T * sz"
      by (simp_all add: len_def)
    then have j: "j < sz" "T * sz + j < n"
      by linarith+
    then show "(dest T j, partitionSlice sz n vals T ! j)
        = (dest ((j + T * sz) div sz) ((j + T * sz) mod sz), vals ! (j + T * sz))"
      using nv by (simp add: partitionSlice_nth add.commute)
  qed
  finally show ?thesis
    by (simp only: range map_map comp_def)
qed

text \<open>All tiles together write every key of the buffer once, in the order of the buffer.\<close>

lemma all_tileWrites:
  assumes sz: "0 < sz" and nk: "n \<le> length ks" and nv: "n \<le> length vals"
  shows "concat (map (tileWrites dest sz n ks vals) [0..<T]) =
     map (\<lambda>i. (dest (i div sz) (i mod sz), vals ! i)) [0..<min (T * sz) n]"
proof (induction T)
  case 0
  show ?case by simp
next
  case (Suc T)
  have le: "min (T * sz) n \<le> min (Suc T * sz) n"
    by simp
  have "[0..<min (Suc T * sz) n] = [0..<min (T * sz) n] @ [min (T * sz) n..<min (Suc T * sz) n]"
  proof -
    from le obtain k where k: "min (Suc T * sz) n = min (T * sz) n + k"
      using le_Suc_ex by blast
    show ?thesis
      unfolding k by (rule upt_add_eq_append) simp
  qed
  then show ?case
    using Suc.IH tileWrites_eq [OF sz nk nv, of dest T] by simp
qed

subsection \<open>Storing\<close>

lemma length_fold_store: "length (fold store ws out) = length out"
  by (induction ws arbitrary: out) (simp_all add: store_def)

lemma fold_store_other:
  "p \<notin> fst ` set ws \<Longrightarrow> fold store ws out ! p = out ! p"
  by (induction ws arbitrary: out) (auto simp add: store_def)

lemma fold_store_written:
  assumes "distinct (map fst ws)" "(p, v) \<in> set ws" "\<forall>w \<in> set ws. fst w < length out"
  shows "fold store ws out ! p = v"
  using assms
proof (induction ws arbitrary: out)
  case Nil
  then show ?case by simp
next
  case (Cons w ws)
  show ?case
  proof (cases "(p, v) = w")
    case True
    with Cons.prems have "p \<notin> fst ` set ws" "p < length out"
      by force+
    then have "fold store (w # ws) out ! p = store w out ! p"
      by (simp add: fold_store_other)
    also have "\<dots> = v"
      using True \<open>p < length out\<close> by (auto simp add: store_def)
    finally show ?thesis .
  next
    case False
    with Cons.prems have "distinct (map fst ws)" "(p, v) \<in> set ws"
        "\<forall>w' \<in> set ws. fst w' < length (store w out)"
      by (auto simp add: store_def)
    then show ?thesis
      using Cons.IH by simp
  qed
qed

subsection \<open>Offsets and ranks\<close>

lemma digitOf_less: "digitOf radixShift k < 256"
proof -
  have "drop_bit (unat radixShift) k AND 0xFF \<le> 0xFF"
    by (rule word_and_le1)
  then have "unat (drop_bit (unat radixShift) k AND 0xFF) \<le> unat (0xFF :: u32)"
    by (simp only: word_le_nat_alt)
  then show ?thesis by (simp add: digitOf_def)
qed

lemma countDigit_take_mono:
  "i \<le> j \<Longrightarrow> countDigit radixShift d (take i ks) \<le> countDigit radixShift d (take j ks)"
proof -
  assume "i \<le> j"
  then have "take j ks = take i ks @ take (j - i) (drop i ks)"
    by (metis le_add_diff_inverse take_add)
  then show ?thesis by (simp add: countDigit_append)
qed

lemma countDigit_take_less:
  assumes "i < j" "j \<le> length ks" "digitOf radixShift (ks ! i) = d"
  shows "countDigit radixShift d (take i ks) < countDigit radixShift d (take j ks)"
proof -
  from assms have "take (Suc i) ks = take i ks @ [ks ! i]"
    by (simp add: take_Suc_conv_app_nth)
  with assms(3) have "countDigit radixShift d (take (Suc i) ks)
      = countDigit radixShift d (take i ks) + 1"
    by (simp add: countDigit_def)
  moreover have "countDigit radixShift d (take (Suc i) ks)
      \<le> countDigit radixShift d (take j ks)"
    using assms(1) by (intro countDigit_take_mono) simp
  ultimately show ?thesis by simp
qed

lemma sum_list_upt_mono:
  fixes c :: "nat \<Rightarrow> nat"
  assumes "a \<le> b"
  shows "sum_list (map c [0..<a]) \<le> sum_list (map c [0..<b])"
proof -
  from assms obtain k where b: "b = a + k"
    using le_Suc_ex by blast
  have "[0..<a + k] = [0..<a] @ [a..<a + k]"
    by (rule upt_add_eq_append) simp
  then show ?thesis
    unfolding b by (simp only: map_append sum_list_append)
qed

lemma offset_step:
  fixes c :: "nat \<Rightarrow> nat"
  assumes "d < d'"
  shows "sum_list (map c [0..<d]) + c d \<le> sum_list (map c [0..<d'])"
proof -
  have "sum_list (map c [0..<d]) + c d = sum_list (map c [0..<Suc d])"
    by simp
  also have "\<dots> \<le> sum_list (map c [0..<d'])"
    using assms by (intro sum_list_upt_mono) simp
  finally show ?thesis .
qed

text \<open>The bins of a histogram add up to the number of keys.\<close>

lemma sum_countDigit_upto:
  assumes "\<forall>k \<in> set ks. digitOf radixShift k < m"
  shows "sum_list (map (\<lambda>e. countDigit radixShift e ks) [0..<m]) = length ks"
  using assms
proof (induction ks)
  case Nil
  show ?case by (simp add: countDigit_def)
next
  case (Cons k ks)
  have one: "sum_list (map (\<lambda>e. if digitOf radixShift k = e then 1 else 0) [0..<m]) = (1 :: nat)"
  proof -
    have "sum_list (map (\<lambda>e. if digitOf radixShift k = e then 1 else 0) [0..<m])
        = (\<Sum>e \<in> {0..<m}. if digitOf radixShift k = e then 1 else (0 :: nat))"
      by (simp add: interv_sum_list_conv_sum_set_nat)
    also have "\<dots> = 1"
      using Cons.prems by (simp del: One_nat_def)
    finally show ?thesis .
  qed
  have "(\<lambda>e. countDigit radixShift e (k # ks))
      = (\<lambda>e. (if digitOf radixShift k = e then 1 else 0) + countDigit radixShift e ks)"
    by (auto simp add: countDigit_def)
  then have step: "sum_list (map (\<lambda>e. countDigit radixShift e (k # ks)) [0..<m])
      = sum_list (map (\<lambda>e. if digitOf radixShift k = e then 1 else 0) [0..<m])
        + sum_list (map (\<lambda>e. countDigit radixShift e ks) [0..<m])"
    by (simp only: sum_list_addf)
  have rest: "sum_list (map (\<lambda>e. countDigit radixShift e ks) [0..<m]) = length ks"
    by (rule Cons.IH) (use Cons.prems in simp)
  show ?case
    by (simp only: step one rest) simp
qed

lemma sum_countDigit:
  "sum_list (map (\<lambda>e. countDigit radixShift e ks) [0..<256]) = length ks"
  by (rule sum_countDigit_upto) (simp add: digitOf_less)

subsection \<open>The key-to-slot mapping of a pass\<close>

text \<open>In what follows the offsets are the exclusive prefix sums of the histogram of the first
  \<open>n\<close> keys of the source buffer, at the radix shift of the pass.\<close>

lemma slotOf_forward:
  assumes sz: "0 < sz" and n: "n \<le> length ks"
    and offs: "\<And>d. offs d = sum_list (map (\<lambda>e. countDigit radixShift e (take n ks)) [0..<d])"
    and i: "i < n" and j: "j < n"
    and less: "digitOf radixShift (ks ! i) < digitOf radixShift (ks ! j)
       \<or> digitOf radixShift (ks ! i) = digitOf radixShift (ks ! j) \<and> i < j"
  shows "slotOf seen sz n radixShift offs ks i < slotOf seen sz n radixShift offs ks j"
proof -
  define di dj where "di = digitOf radixShift (ks ! i)" and "dj = digitOf radixShift (ks ! j)"
  define c where "c = (\<lambda>e. countDigit radixShift e (take n ks))"
  have si: "slotOf seen sz n radixShift offs ks i = offs di + countDigit radixShift di (take i ks)"
    and sj: "slotOf seen sz n radixShift offs ks j = offs dj + countDigit radixShift dj (take j ks)"
    using sz n i j by (simp_all add: slotOf_eq di_def dj_def)
  from less consider "di < dj" | "di = dj" "i < j"
    by (auto simp add: di_def dj_def)
  then show ?thesis
  proof cases
    case 1
    have "countDigit radixShift di (take i ks) < c di"
      unfolding c_def using i n by (intro countDigit_take_less) (simp_all add: di_def)
    then have "offs di + countDigit radixShift di (take i ks) < offs di + c di"
      by simp
    also have "\<dots> \<le> offs dj"
      unfolding offs c_def using 1 by (rule offset_step)
    finally show ?thesis
      by (simp add: si sj)
  next
    case 2
    have "countDigit radixShift di (take i ks) < countDigit radixShift di (take j ks)"
      using 2 j n by (intro countDigit_take_less) (simp_all add: di_def)
    with 2 show ?thesis
      by (simp add: si sj)
  qed
qed

lemma slotOf_less_iff:
  assumes sz: "0 < sz" and n: "n \<le> length ks"
    and offs: "\<And>d. offs d = sum_list (map (\<lambda>e. countDigit radixShift e (take n ks)) [0..<d])"
    and i: "i < n" and j: "j < n"
  shows "slotOf seen sz n radixShift offs ks i < slotOf seen sz n radixShift offs ks j \<longleftrightarrow>
     digitOf radixShift (ks ! i) < digitOf radixShift (ks ! j)
       \<or> digitOf radixShift (ks ! i) = digitOf radixShift (ks ! j) \<and> i < j"
    (is "?L \<longleftrightarrow> ?R")
proof
  assume ?R
  then show ?L by (rule slotOf_forward [OF sz n offs i j])
next
  assume L: ?L
  show ?R
  proof (rule ccontr)
    assume "\<not> ?R"
    then have "i = j \<or> (digitOf radixShift (ks ! j) < digitOf radixShift (ks ! i)
         \<or> digitOf radixShift (ks ! j) = digitOf radixShift (ks ! i) \<and> j < i)"
      by arith
    then consider "i = j"
      | "digitOf radixShift (ks ! j) < digitOf radixShift (ks ! i)
         \<or> digitOf radixShift (ks ! j) = digitOf radixShift (ks ! i) \<and> j < i"
      by blast
    then show False
    proof cases
      case 1
      with L show False by simp
    next
      case 2
      then have "slotOf seen sz n radixShift offs ks j < slotOf seen sz n radixShift offs ks i"
        by (rule slotOf_forward [OF sz n offs j i])
      with L show False by simp
    qed
  qed
qed

lemma slotOf_less_n:
  assumes sz: "0 < sz" and n: "n \<le> length ks"
    and offs: "\<And>d. offs d = sum_list (map (\<lambda>e. countDigit radixShift e (take n ks)) [0..<d])"
    and i: "i < n"
  shows "slotOf seen sz n radixShift offs ks i < n"
proof -
  define di where "di = digitOf radixShift (ks ! i)"
  define c where "c = (\<lambda>e. countDigit radixShift e (take n ks))"
  have "countDigit radixShift di (take i ks) < c di"
    unfolding c_def using i n by (intro countDigit_take_less) (simp_all add: di_def)
  then have "offs di + countDigit radixShift di (take i ks) < offs di + c di"
    by simp
  also have "\<dots> = sum_list (map c [0..<Suc di])"
    by (simp add: offs c_def)
  also have "\<dots> \<le> sum_list (map c [0..<256])"
    using digitOf_less [of radixShift "ks ! i"] by (intro sum_list_upt_mono) (simp add: di_def)
  also have "\<dots> = n"
    unfolding c_def using n by (simp only: sum_countDigit) simp
  finally show ?thesis
    using sz n i by (simp add: slotOf_eq di_def)
qed

text \<open>The mapping is a bijection on the positions below \<open>n\<close>.\<close>

lemma slotOf_bij:
  assumes sz: "0 < sz" and n: "n \<le> length ks"
    and offs: "\<And>d. offs d = sum_list (map (\<lambda>e. countDigit radixShift e (take n ks)) [0..<d])"
  shows "bij_betw (slotOf seen sz n radixShift offs ks) {..<n} {..<n}"
proof -
  let ?D = "slotOf seen sz n radixShift offs ks"
  have inj: "inj_on ?D {..<n}"
  proof (rule inj_onI)
    fix i j assume i: "i \<in> {..<n}" and j: "j \<in> {..<n}" and eq: "?D i = ?D j"
    show "i = j"
    proof (rule ccontr)
      assume "i \<noteq> j"
      then have "(digitOf radixShift (ks ! i) < digitOf radixShift (ks ! j)
            \<or> digitOf radixShift (ks ! i) = digitOf radixShift (ks ! j) \<and> i < j)
          \<or> (digitOf radixShift (ks ! j) < digitOf radixShift (ks ! i)
            \<or> digitOf radixShift (ks ! j) = digitOf radixShift (ks ! i) \<and> j < i)"
        by arith
      then have "?D i < ?D j \<or> ?D j < ?D i"
        using slotOf_less_iff [OF sz n offs, of i j] slotOf_less_iff [OF sz n offs, of j i] i j
        by simp
      with eq show False by simp
    qed
  qed
  have sub: "?D ` {..<n} \<subseteq> {..<n}"
    using slotOf_less_n [OF sz n offs] by auto
  have "card (?D ` {..<n}) = card {..<n}"
    using inj by (rule card_image)
  with sub have "?D ` {..<n} = {..<n}"
    by (intro card_subset_eq) simp_all
  with inj show ?thesis
    by (simp add: bij_betw_def)
qed

subsection \<open>The result of a scatter\<close>

lemma scatter_eq:
  assumes sz: "0 < sz" and nk: "n \<le> length ks" and nv: "n \<le> length vals"
    and parts: "n \<le> parts * sz"
  shows "scatter (destination seen sz n radixShift offs ks) sz n parts ks vals out =
     fold store (map (\<lambda>i. (slotOf seen sz n radixShift offs ks i, vals ! i)) [0..<n]) out"
proof -
  from parts have "min (parts * sz) n = n" by simp
  then show ?thesis
    unfolding scatter_def slotOf_def all_tileWrites [OF sz nk nv] by simp
qed

lemma scatter_result:
  assumes sz: "0 < sz" and nk: "n \<le> length ks" and nv: "n \<le> length vals"
    and parts: "n \<le> parts * sz" and no: "n \<le> length out"
    and offs: "\<And>d. offs d = sum_list (map (\<lambda>e. countDigit radixShift e (take n ks)) [0..<d])"
  shows "length (scatter (destination seen sz n radixShift offs ks) sz n parts ks vals out)
      = length out"
    and "\<forall>i<n. scatter (destination seen sz n radixShift offs ks) sz n parts ks vals out
          ! slotOf seen sz n radixShift offs ks i = vals ! i"
proof -
  let ?D = "slotOf seen sz n radixShift offs ks"
  let ?ws = "map (\<lambda>i. (?D i, vals ! i)) [0..<n]"
  have eq: "scatter (destination seen sz n radixShift offs ks) sz n parts ks vals out
      = fold store ?ws out"
    by (rule scatter_eq [OF sz nk nv parts])
  show "length (scatter (destination seen sz n radixShift offs ks) sz n parts ks vals out)
      = length out"
    by (simp only: eq length_fold_store)
  have "inj_on ?D {..<n}"
    using slotOf_bij [OF sz nk offs] by (simp add: bij_betw_def)
  then have dist: "distinct (map fst ?ws)"
    by (simp add: distinct_map comp_def lessThan_atLeast0)
  have bound: "\<forall>w \<in> set ?ws. fst w < length out"
  proof
    fix w assume "w \<in> set ?ws"
    then obtain i where "i < n" "fst w = ?D i" by auto
    with slotOf_less_n [OF sz nk offs, of i seen] no show "fst w < length out" by simp
  qed
  show "\<forall>i<n. scatter (destination seen sz n radixShift offs ks) sz n parts ks vals out
          ! ?D i = vals ! i"
  proof (intro allI impI)
    fix i assume "i < n"
    then have "(?D i, vals ! i) \<in> set ?ws" by simp
    with dist bound show "scatter (destination seen sz n radixShift offs ks) sz n parts ks vals out
          ! ?D i = vals ! i"
      unfolding eq by (intro fold_store_written) simp_all
  qed
qed

subsection \<open>Arrangements\<close>

lemma take_as_map_nth: "n \<le> length xs \<Longrightarrow> take n xs = map (nth xs) [0..<n]"
  by (rule nth_equalityI) simp_all

lemma arranges_mset:
  assumes "arranges \<pi> n xs ys"
  shows "mset (take n ys) = mset (take n xs)"
proof -
  from assms have bij: "bij_betw \<pi> {..<n} {..<n}" and nx: "n \<le> length xs"
    and ny: "n \<le> length ys" and at: "\<And>i. i < n \<Longrightarrow> ys ! \<pi> i = xs ! i"
    by (simp_all add: arranges_def)
  have inj: "inj_on \<pi> {0..<n}" and img: "\<pi> ` {0..<n} = {0..<n}"
    using bij by (simp_all add: bij_betw_def lessThan_atLeast0)
  have "mset (take n ys) = image_mset (nth ys) (mset_set {0..<n})"
    using ny by (simp add: take_as_map_nth)
  also have "mset_set {0..<n} = image_mset \<pi> (mset_set {0..<n})"
    using inj img by (simp add: image_mset_mset_set)
  also have "image_mset (nth ys) (image_mset \<pi> (mset_set {0..<n}))
      = image_mset (\<lambda>i. ys ! \<pi> i) (mset_set {0..<n})"
    by (simp add: multiset.map_comp comp_def)
  also have "\<dots> = image_mset (nth xs) (mset_set {0..<n})"
    by (rule image_mset_cong) (simp add: at)
  also have "\<dots> = mset (take n xs)"
    using nx by (simp add: take_as_map_nth)
  finally show ?thesis .
qed

lemma arranges_id: "n \<le> length xs \<Longrightarrow> arranges id n xs xs"
  by (simp add: arranges_def)

lemma arranges_comp:
  assumes "arranges \<pi> n xs ys" "arranges \<rho> n ys zs"
  shows "arranges (\<rho> \<circ> \<pi>) n xs zs"
proof -
  from assms have p: "bij_betw \<pi> {..<n} {..<n}" and r: "bij_betw \<rho> {..<n} {..<n}"
    by (simp_all add: arranges_def)
  have "\<And>i. i < n \<Longrightarrow> \<pi> i < n"
    using p by (auto simp add: bij_betw_def)
  with assms show ?thesis
    by (simp add: arranges_def bij_betw_trans [OF p r])
qed

subsection \<open>Digits and low bits\<close>

lemma digitOf_eq: "digitOf radixShift k = unat k div 2 ^ unat radixShift mod 256"
proof -
  have m: "(0xFF :: u32) = mask 8"
    by (simp add: mask_eq_exp_minus_1)
  have "digitOf radixShift k = unat (take_bit 8 (drop_bit (unat radixShift) k))"
    unfolding digitOf_def m by (simp only: take_bit_eq_mask)
  also have "\<dots> = take_bit 8 (drop_bit (unat radixShift) (unat k))"
    by (simp only: unsigned_take_bit_eq unat_drop_bit_eq)
  also have "\<dots> = unat k div 2 ^ unat radixShift mod 256"
    by (simp add: take_bit_eq_mod drop_bit_eq_div)
  finally show ?thesis .
qed

lemma lowBits_less: "lowBits r k < 2 ^ r"
  by (simp add: lowBits_def)

lemma lowBits_0: "lowBits 0 k = 0"
  by (simp add: lowBits_def)

lemma lowBits_32: "lowBits 32 k = unat k"
proof -
  have "unat k < 2 ^ 32"
    using unsigned_less [of k, where 'a = nat] by simp
  then show ?thesis by (simp add: lowBits_def)
qed

lemma lowBits_step:
  "lowBits (unat radixShift + 8) k
     = digitOf radixShift k * 2 ^ unat radixShift + lowBits (unat radixShift) k"
proof -
  have "unat k mod (2 ^ unat radixShift * 256)
      = 2 ^ unat radixShift * (unat k div 2 ^ unat radixShift mod 256)
        + unat k mod 2 ^ unat radixShift"
    by (rule mod_mult2_eq)
  then show ?thesis
    by (simp add: lowBits_def digitOf_eq power_add mult.commute)
qed

lemma lex_less:
  fixes a b x y M :: nat
  assumes "a < M" "b < M"
  shows "x * M + a < y * M + b \<longleftrightarrow> x < y \<or> x = y \<and> a < b"
proof (cases x y rule: linorder_cases)
  case less
  then have "Suc x * M \<le> y * M"
    by (intro mult_le_mono1) simp
  with assms less show ?thesis by simp
next
  case equal
  then show ?thesis by simp
next
  case greater
  then have "Suc y * M \<le> x * M"
    by (intro mult_le_mono1) simp
  with assms greater show ?thesis by simp
qed

lemma lex_eq:
  fixes a b x y M :: nat
  assumes "a < M" "b < M"
  shows "x * M + a = y * M + b \<longleftrightarrow> x = y \<and> a = b"
  using lex_less [OF assms, of x y] lex_less [OF assms(2) assms(1), of y x]
  by (metis less_irrefl_nat linorder_neqE_nat)

text \<open>Ordering by a digit first and by the lower bits next is ordering by the digit and
  the lower bits together.\<close>

lemma lowBits_order_step:
  "digitOf radixShift a < digitOf radixShift b
     \<or> digitOf radixShift a = digitOf radixShift b
        \<and> (lowBits (unat radixShift) a < lowBits (unat radixShift) b
           \<or> lowBits (unat radixShift) a = lowBits (unat radixShift) b \<and> P)
   \<longleftrightarrow> lowBits (unat radixShift + 8) a < lowBits (unat radixShift + 8) b
     \<or> lowBits (unat radixShift + 8) a = lowBits (unat radixShift + 8) b \<and> P"
  unfolding lowBits_step
  using lex_less [OF lowBits_less lowBits_less, of "digitOf radixShift a" "unat radixShift" a
          "digitOf radixShift b" b]
        lex_eq [OF lowBits_less lowBits_less, of "digitOf radixShift a" "unat radixShift" a
          "digitOf radixShift b" b]
  by blast

subsection \<open>One pass on a permutation of the input\<close>

text \<open>The source buffer holds the input keys as arranged by \<open>\<pi>\<close>, in the stable order of
  their low \<open>r\<close> bits, and the offsets are the prefix sums of the histogram of the input
  keys. Then the slots of the pass are a bijection, and the pass leaves the input keys, and
  whatever else it moves along, in the stable order of their low \<open>r + 8\<close> bits.\<close>

lemma pass_offsets:
  assumes ar: "arranges \<pi> n ks0 cur"
    and offs: "\<And>d. offs d = sum_list (map (\<lambda>e. countDigit radixShift e (take n ks0)) [0..<d])"
  shows "offs d = sum_list (map (\<lambda>e. countDigit radixShift e (take n cur)) [0..<d])"
proof -
  have "\<And>e. countDigit radixShift e (take n cur) = countDigit radixShift e (take n ks0)"
    by (rule countDigit_mset) (rule arranges_mset [OF ar])
  then show ?thesis by (simp add: offs)
qed

lemma pass_arranges:
  assumes ar: "arranges \<pi> n ks0 cur" and av: "arranges \<pi> n vs0 vals"
    and sz: "0 < sz" and parts: "n \<le> parts * sz" and no: "n \<le> length out"
    and offs: "\<And>d. offs d = sum_list (map (\<lambda>e. countDigit radixShift e (take n ks0)) [0..<d])"
  shows "arranges (slotOf seen sz n radixShift offs cur \<circ> \<pi>) n vs0
     (scatter (destination seen sz n radixShift offs cur) sz n parts cur vals out)"
proof -
  let ?D = "slotOf seen sz n radixShift offs cur"
  let ?out = "scatter (destination seen sz n radixShift offs cur) sz n parts cur vals out"
  from ar av have nk: "n \<le> length cur" and nv: "n \<le> length vals"
    by (simp_all add: arranges_def)
  note offs' = pass_offsets [OF ar offs]
  have "bij_betw ?D {..<n} {..<n}"
    by (rule slotOf_bij [OF sz nk offs'])
  moreover have "length ?out = length out" and "\<forall>i<n. ?out ! ?D i = vals ! i"
    by (rule scatter_result [OF sz nk nv parts no offs'])+
  ultimately have "arranges ?D n vals ?out"
    using nv no by (simp add: arranges_def)
  with av show ?thesis by (rule arranges_comp)
qed

lemma pass_stablyOrders:
  assumes ar: "arranges \<pi> n ks0 cur"
    and ord: "stablyOrders \<pi> n (lowBits (unat radixShift)) ks0"
    and sz: "0 < sz"
    and offs: "\<And>d. offs d = sum_list (map (\<lambda>e. countDigit radixShift e (take n ks0)) [0..<d])"
  shows "stablyOrders (slotOf seen sz n radixShift offs cur \<circ> \<pi>) n
     (lowBits (unat radixShift + 8)) ks0"
  unfolding stablyOrders_def
proof (intro allI impI)
  fix i j assume i: "i < n" and j: "j < n"
  let ?D = "slotOf seen sz n radixShift offs cur"
  from ar have nk: "n \<le> length cur" and bij: "bij_betw \<pi> {..<n} {..<n}"
    and at: "\<And>i. i < n \<Longrightarrow> cur ! \<pi> i = ks0 ! i"
    by (simp_all add: arranges_def)
  from bij i j have pi: "\<pi> i < n" and pj: "\<pi> j < n"
    by (auto simp add: bij_betw_def)
  note offs' = pass_offsets [OF ar offs]
  have "?D (\<pi> i) < ?D (\<pi> j) \<longleftrightarrow>
      digitOf radixShift (ks0 ! i) < digitOf radixShift (ks0 ! j)
        \<or> digitOf radixShift (ks0 ! i) = digitOf radixShift (ks0 ! j) \<and> \<pi> i < \<pi> j"
    using slotOf_less_iff [OF sz nk offs' pi pj, of seen] by (simp add: at i j)
  also have "\<pi> i < \<pi> j \<longleftrightarrow>
      lowBits (unat radixShift) (ks0 ! i) < lowBits (unat radixShift) (ks0 ! j)
        \<or> lowBits (unat radixShift) (ks0 ! i) = lowBits (unat radixShift) (ks0 ! j) \<and> i < j"
    using ord i j by (simp add: stablyOrders_def)
  finally show "(?D \<circ> \<pi>) i < (?D \<circ> \<pi>) j \<longleftrightarrow>
      lowBits (unat radixShift + 8) (ks0 ! i) < lowBits (unat radixShift + 8) (ks0 ! j)
        \<or> lowBits (unat radixShift + 8) (ks0 ! i) = lowBits (unat radixShift + 8) (ks0 ! j)
           \<and> i < j"
    by (simp only: comp_def lowBits_order_step)
qed

lemma pass_bij:
  assumes ar: "arranges \<pi> n ks0 cur" and sz: "0 < sz"
    and offs: "\<And>d. offs d = sum_list (map (\<lambda>e. countDigit radixShift e (take n ks0)) [0..<d])"
  shows "bij_betw (slotOf seen sz n radixShift offs cur) {..<n} {..<n}"
proof -
  from ar have nk: "n \<le> length cur"
    by (simp add: arranges_def)
  show ?thesis
    by (rule slotOf_bij [OF sz nk pass_offsets [OF ar offs]])
qed

section \<open>Device side: the whole sort\<close>

subsection \<open>Reset, global histogram and scan\<close>

lemma GlobalHist_InitSweep:
  assumes "n \<le> parts * gsz" "p < 4"
  shows "GlobalHist gsz parts n ks InitSweep p d = countDigit (of_nat (8 * p)) d (take n ks)"
proof -
  have "take (parts * gsz) (take n ks) = take n ks"
    using assms(1) by simp
  with assms(2) show ?thesis
    by (simp only: GlobalHist_def InitSweep_def sum_partition_counts) simp
qed

lemma Scan_GlobalHist_InitSweep:
  assumes "n \<le> parts * gsz" "p < 4" "4 \<le> passes"
  shows "Scan passes (GlobalHist gsz parts n ks InitSweep) p d
     = sum_list (map (\<lambda>e. countDigit (of_nat (8 * p)) e (take n ks)) [0..<d])"
proof -
  have "GlobalHist gsz parts n ks InitSweep p
      = (\<lambda>e. countDigit (of_nat (8 * p)) e (take n ks))"
    by (rule ext) (rule GlobalHist_InitSweep [OF assms(1) assms(2)])
  moreover have "p < passes"
    using assms by simp
  ultimately show ?thesis
    by (simp only: Scan_def if_True)
qed

subsection \<open>One dispatch of the digit-binning pass\<close>

lemma DigitBinningPass_mem:
  "mem (DigitBinningPass K src dst srcP dstP n parts radixShift dv) =
     (mem dv)
       (dst := scatter (destination (aggregatedSeen K) (partitionSize K) n radixShift
                 (hist dv (unat radixShift div 8)) (mem dv src))
               (partitionSize K) n parts (mem dv src) (mem dv src) (mem dv dst),
        dstP := scatter (destination (aggregatedSeen K) (partitionSize K) n radixShift
                 (hist dv (unat radixShift div 8)) (mem dv src))
               (partitionSize K) n parts (mem dv src) (mem dv srcP) (mem dv dstP))"
  by (simp add: DigitBinningPass_def Let_def)

lemma DigitBinningPass_hist:
  "hist (DigitBinningPass K src dst srcP dstP n parts radixShift dv) = hist dv"
  by (simp add: DigitBinningPass_def Let_def)

lemma DigitBinningPass_step:
  assumes dist: "distinct [src, dst, srcP, dstP]"
    and ark: "arranges \<pi> n ks0 (mem dv src)" and arp: "arranges \<pi> n ps0 (mem dv srcP)"
    and ord: "stablyOrders \<pi> n (lowBits (unat radixShift)) ks0"
    and nd: "n \<le> length (mem dv dst)" and ndP: "n \<le> length (mem dv dstP)"
    and sz: "0 < partitionSize K" and parts: "n \<le> parts * partitionSize K"
    and offs: "\<And>d. hist dv (unat radixShift div 8) d
        = sum_list (map (\<lambda>e. countDigit radixShift e (take n ks0)) [0..<d])"
  shows "\<exists>\<rho>. arranges \<rho> n ks0
            (mem (DigitBinningPass K src dst srcP dstP n parts radixShift dv) dst)
          \<and> arranges \<rho> n ps0
            (mem (DigitBinningPass K src dst srcP dstP n parts radixShift dv) dstP)
          \<and> stablyOrders \<rho> n (lowBits (unat radixShift + 8)) ks0"
    and "bij_betw (slotOf (aggregatedSeen K) (partitionSize K) n radixShift
            (hist dv (unat radixShift div 8)) (mem dv src)) {..<n} {..<n}"
    and "n \<le> length (mem (DigitBinningPass K src dst srcP dstP n parts radixShift dv) src)"
    and "n \<le> length (mem (DigitBinningPass K src dst srcP dstP n parts radixShift dv) srcP)"
proof -
  let ?offs = "hist dv (unat radixShift div 8)"
  let ?D = "slotOf (aggregatedSeen K) (partitionSize K) n radixShift ?offs (mem dv src)"
  let ?dv = "DigitBinningPass K src dst srcP dstP n parts radixShift dv"
  from dist have ne: "dst \<noteq> dstP" "src \<noteq> dst" "src \<noteq> dstP" "srcP \<noteq> dst" "srcP \<noteq> dstP"
    by auto
  have k: "arranges (?D \<circ> \<pi>) n ks0 (mem ?dv dst)"
    using pass_arranges [OF ark ark sz parts nd offs, of "aggregatedSeen K"] ne
    by (simp add: DigitBinningPass_mem)
  have p: "arranges (?D \<circ> \<pi>) n ps0 (mem ?dv dstP)"
    using pass_arranges [OF ark arp sz parts ndP offs, of "aggregatedSeen K"] ne
    by (simp add: DigitBinningPass_mem)
  have s: "stablyOrders (?D \<circ> \<pi>) n (lowBits (unat radixShift + 8)) ks0"
    by (rule pass_stablyOrders [OF ark ord sz offs])
  from k p s show "\<exists>\<rho>. arranges \<rho> n ks0 (mem ?dv dst) \<and> arranges \<rho> n ps0 (mem ?dv dstP)
      \<and> stablyOrders \<rho> n (lowBits (unat radixShift + 8)) ks0"
    by blast
  show "bij_betw ?D {..<n} {..<n}"
    by (rule pass_bij [OF ark sz offs])
  from ark arp have "n \<le> length (mem dv src)" "n \<le> length (mem dv srcP)"
    by (simp_all add: arranges_def)
  with ne show "n \<le> length (mem ?dv src)" "n \<le> length (mem ?dv srcP)"
    by (simp_all add: DigitBinningPass_mem)
qed

subsection \<open>The four passes\<close>

lemma unat_shifts:
  "unat (0 :: u32) = 0" "unat (8 :: u32) = 8" "unat (16 :: u32) = 16" "unat (24 :: u32) = 24"
  by simp_all

text \<open>The device after reset, global histogram and scan.\<close>

lemma prelude_eq:
  "fold (exec K)
     [InitSweepDispatch gh ph idx parts, UAVBarrier b1,
      GlobalHistDispatch (GPUVirtualAddress A) gh' n gparts, UAVBarrier b2,
      ScanDispatch gh'' ph' parts' passes, UAVBarrier b3] dv
   = dv\<lparr>hist := Scan (unat passes)
        (GlobalHist (globalHistPartitionSize K) (unat gparts) (unat n) (mem dv A) InitSweep)\<rparr>"
  by simp

lemma runSort_eq:
  "runSort K s dv =
     DigitBinningPass K (m_altBuffer s) (m_sortBuffer s) (m_altPayloadBuffer s)
         (m_sortPayloadBuffer s) (unat (m_numKeys s)) (unat (m_partitions s)) 24
      (DigitBinningPass K (m_sortBuffer s) (m_altBuffer s) (m_sortPayloadBuffer s)
         (m_altPayloadBuffer s) (unat (m_numKeys s)) (unat (m_partitions s)) 16
      (DigitBinningPass K (m_altBuffer s) (m_sortBuffer s) (m_altPayloadBuffer s)
         (m_sortPayloadBuffer s) (unat (m_numKeys s)) (unat (m_partitions s)) 8
      (DigitBinningPass K (m_sortBuffer s) (m_altBuffer s) (m_sortPayloadBuffer s)
         (m_altPayloadBuffer s) (unat (m_numKeys s)) (unat (m_partitions s)) 0
      (dv\<lparr>hist := Scan (unat (k_radixPasses s))
        (GlobalHist (globalHistPartitionSize K) (unat (m_globalHistPartitions s))
           (unat (m_numKeys s)) (mem dv (m_sortBuffer s)) InitSweep)\<rparr>))))"
  by (simp add: runSort_def emitted_eq)

lemma stablyOrders_id: "stablyOrders id n (lowBits 0) xs"
  by (simp add: stablyOrders_def lowBits_0)

lemma slotMaps_eq:
  "slotMaps K (emitted s) dv =
    (let n = unat (m_numKeys s); parts = unat (m_partitions s);
         A = m_sortBuffer s; B = m_altBuffer s;
         P = m_sortPayloadBuffer s; Q = m_altPayloadBuffer s;
         dv1 = dv\<lparr>hist := Scan (unat (k_radixPasses s))
           (GlobalHist (globalHistPartitionSize K) (unat (m_globalHistPartitions s))
              n (mem dv A) InitSweep)\<rparr>;
         dv2 = DigitBinningPass K A B P Q n parts 0 dv1;
         dv3 = DigitBinningPass K B A Q P n parts 8 dv2;
         dv4 = DigitBinningPass K A B P Q n parts 16 dv3
     in [slotOf (aggregatedSeen K) (partitionSize K) n 0 (hist dv1 (unat (0 :: u32) div 8))
           (mem dv1 A),
         slotOf (aggregatedSeen K) (partitionSize K) n 8 (hist dv2 (unat (8 :: u32) div 8))
           (mem dv2 B),
         slotOf (aggregatedSeen K) (partitionSize K) n 16 (hist dv3 (unat (16 :: u32) div 8))
           (mem dv3 A),
         slotOf (aggregatedSeen K) (partitionSize K) n 24 (hist dv4 (unat (24 :: u32) div 8))
           (mem dv4 B)])"
  by (simp add: emitted_eq Let_def)

text \<open>After the four passes the sort buffer holds the keys it held before, in the stable
  order of their unsigned values, and the sort payload buffer holds the payloads, moved along
  with the keys.\<close>

lemma runSort_passes:
  assumes fit: "fits K s dv"
  shows "\<exists>\<pi>. arranges \<pi> (unat (m_numKeys s)) (mem dv (m_sortBuffer s))
             (mem (runSort K s dv) (m_sortBuffer s))
          \<and> arranges \<pi> (unat (m_numKeys s)) (mem dv (m_sortPayloadBuffer s))
             (mem (runSort K s dv) (m_sortPayloadBuffer s))
          \<and> stablyOrders \<pi> (unat (m_numKeys s)) unat (mem dv (m_sortBuffer s))"
    and "length (slotMaps K (emitted s) dv) = 4"
    and "\<forall>D \<in> set (slotMaps K (emitted s) dv).
           bij_betw D {..<unat (m_numKeys s)} {..<unat (m_numKeys s)}"
proof -
  define n A B P Q parts where "n = unat (m_numKeys s)" and "A = m_sortBuffer s"
    and "B = m_altBuffer s" and "P = m_sortPayloadBuffer s" and "Q = m_altPayloadBuffer s"
    and "parts = unat (m_partitions s)"
  define ks0 ps0 where "ks0 = mem dv A" and "ps0 = mem dv P"
  define dv1 where "dv1 = dv\<lparr>hist := Scan (unat (k_radixPasses s))
        (GlobalHist (globalHistPartitionSize K) (unat (m_globalHistPartitions s))
           n (mem dv A) InitSweep)\<rparr>"
  define dv2 where "dv2 = DigitBinningPass K A B P Q n parts 0 dv1"
  define dv3 where "dv3 = DigitBinningPass K B A Q P n parts 8 dv2"
  define dv4 where "dv4 = DigitBinningPass K A B P Q n parts 16 dv3"
  define dv5 where "dv5 = DigitBinningPass K B A Q P n parts 24 dv4"
  have run: "runSort K s dv = dv5"
    by (simp only: runSort_eq dv5_def dv4_def dv3_def dv2_def dv1_def n_def A_def B_def P_def
        Q_def parts_def)
  from fit have d1: "distinct [A, B, P, Q]" and d2: "distinct [B, A, Q, P]"
    and lA: "n \<le> length (mem dv A)" and lB: "n \<le> length (mem dv B)"
    and lP: "n \<le> length (mem dv P)" and lQ: "n \<le> length (mem dv Q)"
    and sz: "0 < partitionSize K" and parts: "n \<le> parts * partitionSize K"
    and gparts: "n \<le> unat (m_globalHistPartitions s) * globalHistPartitionSize K"
    and passes: "4 \<le> unat (k_radixPasses s)"
    by (auto simp add: fits_def n_def A_def B_def P_def Q_def parts_def)
  have mem1: "mem dv1 = mem dv"
    by (simp add: dv1_def)
  have hist1: "\<And>p d. p < 4 \<Longrightarrow>
      hist dv1 p d = sum_list (map (\<lambda>e. countDigit (of_nat (8 * p)) e (take n ks0)) [0..<d])"
    by (simp add: dv1_def ks0_def Scan_GlobalHist_InitSweep [OF gparts _ passes])
  have h0: "\<And>d. hist dv1 (unat (0 :: u32) div 8) d
      = sum_list (map (\<lambda>e. countDigit 0 e (take n ks0)) [0..<d])"
    using hist1 [of 0] by simp
  have h1: "\<And>d. hist dv1 (unat (8 :: u32) div 8) d
      = sum_list (map (\<lambda>e. countDigit 8 e (take n ks0)) [0..<d])"
    using hist1 [of 1] by simp
  have h2: "\<And>d. hist dv1 (unat (16 :: u32) div 8) d
      = sum_list (map (\<lambda>e. countDigit 16 e (take n ks0)) [0..<d])"
    using hist1 [of 2] by simp
  have h3: "\<And>d. hist dv1 (unat (24 :: u32) div 8) d
      = sum_list (map (\<lambda>e. countDigit 24 e (take n ks0)) [0..<d])"
    using hist1 [of 3] by simp
  have hist2: "hist dv2 = hist dv1" and hist3: "hist dv3 = hist dv1"
    and hist4: "hist dv4 = hist dv1"
    by (simp_all add: dv2_def dv3_def dv4_def DigitBinningPass_hist)
  have a0: "arranges id n ks0 (mem dv1 A)" "arranges id n ps0 (mem dv1 P)"
    using lA lP by (simp_all add: mem1 ks0_def ps0_def arranges_id)
  have o0: "stablyOrders id n (lowBits (unat (0 :: u32))) ks0"
    by (simp add: stablyOrders_id)
  have l0: "n \<le> length (mem dv1 B)" "n \<le> length (mem dv1 Q)"
    using lB lQ by (simp_all add: mem1)
  note s0 = DigitBinningPass_step [OF d1 a0 o0 l0 sz parts h0, folded dv2_def]
  from s0(1) obtain \<rho>1 where a1: "arranges \<rho>1 n ks0 (mem dv2 B)"
      "arranges \<rho>1 n ps0 (mem dv2 Q)" and o1: "stablyOrders \<rho>1 n (lowBits (unat (8 :: u32))) ks0"
    by auto
  note l1 = s0(3,4)
  note s1 = DigitBinningPass_step [OF d2 a1 o1 l1 sz parts h1 [folded hist2], folded dv3_def]
  from s1(1) obtain \<rho>2 where a2: "arranges \<rho>2 n ks0 (mem dv3 A)"
      "arranges \<rho>2 n ps0 (mem dv3 P)" and o2: "stablyOrders \<rho>2 n (lowBits (unat (16 :: u32))) ks0"
    by auto
  note l2 = s1(3,4)
  note s2 = DigitBinningPass_step [OF d1 a2 o2 l2 sz parts h2 [folded hist3], folded dv4_def]
  from s2(1) obtain \<rho>3 where a3: "arranges \<rho>3 n ks0 (mem dv4 B)"
      "arranges \<rho>3 n ps0 (mem dv4 Q)" and o3: "stablyOrders \<rho>3 n (lowBits (unat (24 :: u32))) ks0"
    by auto
  note l3 = s2(3,4)
  note s3 = DigitBinningPass_step [OF d2 a3 o3 l3 sz parts h3 [folded hist4], folded dv5_def]
  from s3(1) obtain \<rho>4 where a4: "arranges \<rho>4 n ks0 (mem dv5 A)"
      "arranges \<rho>4 n ps0 (mem dv5 P)" and o4: "stablyOrders \<rho>4 n (lowBits 32) ks0"
    by auto
  have "lowBits 32 = unat"
    by (rule ext) (rule lowBits_32)
  with o4 have "stablyOrders \<rho>4 n unat ks0" by simp
  with a4 show "\<exists>\<pi>. arranges \<pi> (unat (m_numKeys s)) (mem dv (m_sortBuffer s))
             (mem (runSort K s dv) (m_sortBuffer s))
          \<and> arranges \<pi> (unat (m_numKeys s)) (mem dv (m_sortPayloadBuffer s))
             (mem (runSort K s dv) (m_sortPayloadBuffer s))
          \<and> stablyOrders \<pi> (unat (m_numKeys s)) unat (mem dv (m_sortBuffer s))"
    unfolding run n_def [symmetric] A_def [symmetric] P_def [symmetric]
      ks0_def [symmetric] ps0_def [symmetric]
    by blast
  have maps: "slotMaps K (emitted s) dv =
      [slotOf (aggregatedSeen K) (partitionSize K) n 0 (hist dv1 (unat (0 :: u32) div 8))
         (mem dv1 A),
       slotOf (aggregatedSeen K) (partitionSize K) n 8 (hist dv2 (unat (8 :: u32) div 8))
         (mem dv2 B),
       slotOf (aggregatedSeen K) (partitionSize K) n 16 (hist dv3 (unat (16 :: u32) div 8))
         (mem dv3 A),
       slotOf (aggregatedSeen K) (partitionSize K) n 24 (hist dv4 (unat (24 :: u32) div 8))
         (mem dv4 B)]"
    by (simp only: slotMaps_eq Let_def dv4_def dv3_def dv2_def dv1_def n_def A_def B_def P_def
        Q_def parts_def)
  show "length (slotMaps K (emitted s) dv) = 4"
    by (simp only: maps) simp
  show "\<forall>D \<in> set (slotMaps K (emitted s) dv).
      bij_betw D {..<unat (m_numKeys s)} {..<unat (m_numKeys s)}"
    unfolding maps n_def [symmetric] using s0(2) s1(2) s2(2) s3(2) by simp
qed

subsection \<open>Sorted results\<close>

lemma arranges_sorted:
  assumes ar: "arranges \<pi> n xs ys" and ord: "stablyOrders \<pi> n f xs"
  shows "sorted_wrt (\<lambda>a b. f a \<le> f b) (take n ys)"
proof -
  from ar have bij: "bij_betw \<pi> {..<n} {..<n}" and ny: "n \<le> length ys"
    and at: "\<And>i. i < n \<Longrightarrow> ys ! \<pi> i = xs ! i"
    by (simp_all add: arranges_def)
  have "f (ys ! p) \<le> f (ys ! q)" if "p < q" "q < n" for p q
  proof -
    from bij have img: "\<pi> ` {..<n} = {..<n}"
      by (simp add: bij_betw_def)
    from that have "p \<in> {..<n}" "q \<in> {..<n}"
      by simp_all
    then have "p \<in> \<pi> ` {..<n}" "q \<in> \<pi> ` {..<n}"
      by (simp_all only: img)
    then obtain i j where i: "i < n" "\<pi> i = p" and j: "j < n" "\<pi> j = q"
      by auto
    from that i j have "\<pi> i < \<pi> j" by simp
    with ord i j have "f (xs ! i) \<le> f (xs ! j)"
      by (auto simp add: stablyOrders_def)
    moreover have "ys ! p = xs ! i" "ys ! q = xs ! j"
      using at [of i] at [of j] i j by simp_all
    ultimately show ?thesis by simp
  qed
  then show ?thesis
    using ny by (simp add: sorted_wrt_iff_nth_less)
qed

subsection \<open>Sizing\<close>

lemma ceil_div_cover:
  fixes n g :: nat
  assumes "0 < g"
  shows "n \<le> (n + g - 1) div g * g" and "(n + g - 1) div g \<le> n"
proof -
  have "n + g - 1 < g + (n + g - 1) div g * g"
    using assms by (rule dividend_less_div_times)
  with assms show "n \<le> (n + g - 1) div g * g"
    by simp
  have "n \<le> n * g"
    using assms by simp
  then have "n + g - 1 \<le> n * g + (g - 1)"
    using assms by linarith
  then have "(n + g - 1) div g \<le> (n * g + (g - 1)) div g"
    by (rule div_le_mono)
  also have "(n * g + (g - 1)) div g = n + (g - 1) div g"
    using assms by (intro div_mult_self3) simp
  also have "(g - 1) div g = 0"
    using assms by simp
  finally show "(n + g - 1) div g \<le> n" by simp
qed

lemma unat_of_nat32: "n < 2 ^ 32 \<Longrightarrow> unat (of_nat n :: u32) = n"
  by (simp add: unat_of_nat)

lemma fits_upload:
  assumes n: "length ks < 2 ^ 32" and p: "length ps = length ks" and g: "0 < gsz"
  shows "fits (sortKernels seen gsz) (sorterFor 8192 gsz (length ks))
     (upload (sorterFor 8192 gsz (length ks)) ks ps)"
proof -
  define n where "n = length ks"
  define s where "s = sorterFor 8192 gsz n"
  have n32: "n < 2 ^ 32" using n by (simp add: n_def)
  have c1: "n \<le> (n + 8192 - 1) div 8192 * 8192" "(n + 8192 - 1) div 8192 \<le> n"
    by (rule ceil_div_cover, simp)+
  have c2: "n \<le> (n + gsz - 1) div gsz * gsz" "(n + gsz - 1) div gsz \<le> n"
    by (rule ceil_div_cover [OF g])+
  have u0: "unat (m_numKeys s) = n"
    unfolding s_def sorterFor_def using n32 by (simp only: OneSweep.simps unat_of_nat32)
  have "unat (of_nat ((n + 8192 - 1) div 8192) :: u32) = (n + 8192 - 1) div 8192"
    using c1(2) n32 by (intro unat_of_nat32) simp
  then have u1: "unat (m_partitions s) = (n + 8192 - 1) div 8192"
    unfolding s_def sorterFor_def by (simp only: OneSweep.simps)
  have "unat (of_nat ((n + gsz - 1) div gsz) :: u32) = (n + gsz - 1) div gsz"
    using c2(2) n32 by (intro unat_of_nat32) simp
  then have u2: "unat (m_globalHistPartitions s) = (n + gsz - 1) div gsz"
    unfolding s_def sorterFor_def by (simp only: OneSweep.simps)
  have bufs: "m_sortBuffer s = 0" "m_altBuffer s = 1" "m_sortPayloadBuffer s = 2"
      "m_altPayloadBuffer s = 3" "k_radixPasses s = 4"
    by (simp_all add: s_def sorterFor_def)
  have K: "partitionSize (sortKernels seen gsz) = 8192"
      "globalHistPartitionSize (sortKernels seen gsz) = gsz"
    by (simp_all add: sortKernels_def)
  have mems: "length (mem (upload s ks ps) 0) = n" "length (mem (upload s ks ps) 1) = n"
      "length (mem (upload s ks ps) 2) = n" "length (mem (upload s ks ps) 3) = n"
    using p by (simp_all add: upload_def bufs n_def)
  have easy: "distinct [0 :: nat, 1, 2, 3]" "n \<le> n" "(0 :: nat) < 8192" "4 \<le> unat (4 :: u32)"
    by simp_all
  show ?thesis
    unfolding n_def [symmetric] s_def [symmetric] fits_def u0 u1 u2 bufs K mems
    using c1(1) c2(1) easy by blast
qed

subsection \<open>A sort call\<close>

lemma sorterFor_numKeys: "n < 2 ^ 32 \<Longrightarrow> unat (m_numKeys (sorterFor sz gsz n)) = n"
  by (simp add: sorterFor_def unat_of_nat32)

lemma inverse_forward:
  "inverseTransform sortingOrder keyType (forwardTransform sortingOrder keyType k) = k"
  by (cases sortingOrder)
    (simp_all add: inverseTransform_def forwardTransform_def uintToKey_keyToUint)

lemma forward_inverse:
  "forwardTransform sortingOrder keyType (inverseTransform sortingOrder keyType u) = u"
  by (cases sortingOrder)
    (simp_all add: inverseTransform_def forwardTransform_def keyToUint_uintToKey)

text \<open>The result of a sort call is the input as arranged by one bijection on the positions,
  which moves keys and payloads alike and puts the keys in the stable order of their
  transformed values.\<close>

lemma OneSweepSort_arranges:
  assumes n: "length keys < 2 ^ 32" and p: "length payloads = length keys" and g: "0 < gsz"
  shows "\<exists>\<pi>. arranges \<pi> (length keys) keys
             (fst (OneSweepSort seen gsz sortingOrder keyType keys payloads))
          \<and> arranges \<pi> (length keys) payloads
             (snd (OneSweepSort seen gsz sortingOrder keyType keys payloads))
          \<and> stablyOrders \<pi> (length keys)
             (\<lambda>k. unat (forwardTransform sortingOrder keyType k)) keys
          \<and> length (fst (OneSweepSort seen gsz sortingOrder keyType keys payloads))
             = length keys
          \<and> length (snd (OneSweepSort seen gsz sortingOrder keyType keys payloads))
             = length keys"
proof -
  define N where "N = length keys"
  define s where "s = sorterFor 8192 gsz N"
  define tk where "tk = map (forwardTransform sortingOrder keyType) keys"
  define dv where "dv = runSort (sortKernels seen gsz) s (upload s tk payloads)"
  define outK where "outK = map (inverseTransform sortingOrder keyType) (take N (mem dv 0))"
  define outP where "outP = take N (mem dv 2)"
  have bufs: "m_sortBuffer s = 0" "m_sortPayloadBuffer s = 2"
    by (simp_all add: s_def sorterFor_def)
  have bufs': "m_sortBuffer (PrepareSortCmdList s) = 0"
      "m_sortPayloadBuffer (PrepareSortCmdList s) = 2"
    by (simp_all add: PrepareSortCmdList_eq bufs)
  have res: "OneSweepSort seen gsz sortingOrder keyType keys payloads = (outK, outP)"
    unfolding OneSweepSort_def Let_def N_def [symmetric] s_def [symmetric] tk_def [symmetric]
      dv_def [symmetric] bufs' outK_def outP_def
    by (rule refl)
  have ltk: "length tk = N"
    by (simp add: tk_def N_def)
  have numKeys: "unat (m_numKeys s) = N"
    unfolding s_def using n by (intro sorterFor_numKeys) (simp add: N_def)
  have "fits (sortKernels seen gsz) (sorterFor 8192 gsz (length tk))
      (upload (sorterFor 8192 gsz (length tk)) tk payloads)"
    using n p g by (intro fits_upload) (simp_all add: tk_def)
  then have fit: "fits (sortKernels seen gsz) s (upload s tk payloads)"
    by (simp only: ltk s_def)
  have up: "mem (upload s tk payloads) 0 = tk" "mem (upload s tk payloads) 2 = payloads"
    by (simp_all add: upload_def bufs s_def sorterFor_def)
  from runSort_passes(1) [OF fit] obtain \<pi>
    where ak: "arranges \<pi> N tk (mem dv 0)" and ap: "arranges \<pi> N payloads (mem dv 2)"
      and ord: "stablyOrders \<pi> N unat tk"
    unfolding numKeys bufs up dv_def [symmetric] by blast
  from ak have bij: "bij_betw \<pi> {..<N} {..<N}" and lk: "N \<le> length (mem dv 0)"
    and atk: "\<And>i. i < N \<Longrightarrow> mem dv 0 ! \<pi> i = tk ! i"
    by (simp_all add: arranges_def)
  from ap have lp: "N \<le> length (mem dv 2)"
    and atp: "\<And>i. i < N \<Longrightarrow> mem dv 2 ! \<pi> i = payloads ! i"
    by (simp_all add: arranges_def)
  have range: "\<And>i. i < N \<Longrightarrow> \<pi> i < N"
    using bij by (auto simp add: bij_betw_def)
  have lenK: "length outK = N" and lenP: "length outP = N"
    using lk lp by (simp_all add: outK_def outP_def)
  have "outK ! \<pi> i = keys ! i" if "i < N" for i
  proof -
    have "outK ! \<pi> i = inverseTransform sortingOrder keyType (mem dv 0 ! \<pi> i)"
      using range [OF that] lk by (simp add: outK_def)
    also have "\<dots> = inverseTransform sortingOrder keyType (tk ! i)"
      by (simp only: atk [OF that])
    also have "\<dots> = keys ! i"
      using that by (simp add: tk_def N_def inverse_forward)
    finally show ?thesis .
  qed
  then have a1: "arranges \<pi> N keys outK"
    using bij lenK by (simp add: arranges_def N_def)
  have "outP ! \<pi> i = payloads ! i" if "i < N" for i
    using range [OF that] atp [OF that] by (simp add: outP_def)
  then have a2: "arranges \<pi> N payloads outP"
    using bij lenP p by (simp add: arranges_def N_def)
  have a3: "stablyOrders \<pi> N (\<lambda>k. unat (forwardTransform sortingOrder keyType k)) keys"
    using ord by (simp add: stablyOrders_def tk_def N_def)
  from a1 a2 a3 lenK lenP show ?thesis
    unfolding res N_def [symmetric] by auto
qed

lemma OneSweepSort_inOrder:
  assumes n: "length keys < 2 ^ 32" and p: "length payloads = length keys" and g: "0 < gsz"
  shows "inOrder sortingOrder keyType
     (fst (OneSweepSort seen gsz sortingOrder keyType keys payloads))"
proof -
  let ?out = "fst (OneSweepSort seen gsz sortingOrder keyType keys payloads)"
  let ?T = "forwardTransform sortingOrder keyType"
  from OneSweepSort_arranges [OF n p g, of seen sortingOrder keyType]
  obtain \<pi> where ar: "arranges \<pi> (length keys) keys ?out"
    and ord: "stablyOrders \<pi> (length keys) (\<lambda>k. unat (?T k)) keys"
    and len: "length ?out = length keys"
    by blast
  have "sorted_wrt (\<lambda>a b. unat (?T a) \<le> unat (?T b)) (take (length keys) ?out)"
    by (rule arranges_sorted [OF ar ord])
  then have sorted: "sorted_wrt (\<lambda>a b. ?T a \<le> ?T b) ?out"
    by (simp add: len word_le_nat_alt)
  show ?thesis
  proof (cases sortingOrder)
    case ORDER_ASCENDING
    with sorted show ?thesis
      by (simp add: inOrder_def forwardTransform_le_iff)
  next
    case ORDER_DESCENDING
    with sorted show ?thesis
      by (simp add: inOrder_def forwardTransform_le_iff)
  qed
qed

lemma OneSweepSort_slotMaps:
  assumes n: "length keys < 2 ^ 32" and p: "length payloads = length keys" and g: "0 < gsz"
  shows "length (slotMaps (sortKernels seen gsz) (emitted (sorterFor 8192 gsz (length keys)))
            (upload (sorterFor 8192 gsz (length keys)) ks payloads)) = 4"
    and "length ks = length keys \<Longrightarrow>
         \<forall>D \<in> set (slotMaps (sortKernels seen gsz) (emitted (sorterFor 8192 gsz (length keys)))
            (upload (sorterFor 8192 gsz (length keys)) ks payloads)).
           bij_betw D {..<length keys} {..<length keys}"
proof -
  show "length (slotMaps (sortKernels seen gsz) (emitted (sorterFor 8192 gsz (length keys)))
            (upload (sorterFor 8192 gsz (length keys)) ks payloads)) = 4"
    by (simp add: slotMaps_eq Let_def)
  assume l: "length ks = length keys"
  have "fits (sortKernels seen gsz) (sorterFor 8192 gsz (length ks))
      (upload (sorterFor 8192 gsz (length ks)) ks payloads)"
    using n p g by (intro fits_upload) (simp_all add: l)
  from runSort_passes(3) [OF this] show
    "\<forall>D \<in> set (slotMaps (sortKernels seen gsz) (emitted (sorterFor 8192 gsz (length keys)))
            (upload (sorterFor 8192 gsz (length keys)) ks payloads)).
           bij_betw D {..<length keys} {..<length keys}"
    using n by (simp add: l sorterFor_numKeys)
qed

text \<open>C1: for every sequence of fewer than \<open>2 ^ 32\<close> keys, with as many payloads, every key
  type, either order and every scheduling of the look-back, the keys that a sort call
  returns are a permutation of the input keys and are in the requested order of their values
  under the key type; and each of the four passes of the call maps the positions below the
  key count to slots by a bijection.\<close>

theorem sort_returns_sorted_permutation:
  assumes "length keys < 2 ^ 32" and "length payloads = length keys" and "0 < gsz"
  shows "mset (fst (OneSweepSort seen gsz sortingOrder keyType keys payloads)) = mset keys
    \<and> inOrder sortingOrder keyType
        (fst (OneSweepSort seen gsz sortingOrder keyType keys payloads))
    \<and> length (slotMaps (sortKernels seen gsz) (emitted (sorterFor 8192 gsz (length keys)))
         (upload (sorterFor 8192 gsz (length keys))
            (map (forwardTransform sortingOrder keyType) keys) payloads)) = 4
    \<and> (\<forall>D \<in> set (slotMaps (sortKernels seen gsz)
            (emitted (sorterFor 8192 gsz (length keys)))
            (upload (sorterFor 8192 gsz (length keys))
               (map (forwardTransform sortingOrder keyType) keys) payloads)).
          bij_betw D {..<length keys} {..<length keys})"
proof -
  let ?out = "fst (OneSweepSort seen gsz sortingOrder keyType keys payloads)"
  from OneSweepSort_arranges [OF assms, of seen sortingOrder keyType]
  obtain \<pi> where ar: "arranges \<pi> (length keys) keys ?out"
    and len: "length ?out = length keys"
    by blast
  from arranges_mset [OF ar] len have "mset ?out = mset keys"
    by simp
  moreover note OneSweepSort_inOrder [OF assms, of sortingOrder keyType seen]
  moreover note OneSweepSort_slotMaps(1) [OF assms, of seen
      "map (forwardTransform sortingOrder keyType) keys"]
  moreover have "\<forall>D \<in> set (slotMaps (sortKernels seen gsz)
            (emitted (sorterFor 8192 gsz (length keys)))
            (upload (sorterFor 8192 gsz (length keys))
               (map (forwardTransform sortingOrder keyType) keys) payloads)).
          bij_betw D {..<length keys} {..<length keys}"
    by (rule OneSweepSort_slotMaps(2) [OF assms]) simp
  ultimately show ?thesis by blast
qed

theorem sort_returns_sorted_permutation_witness:
  "length [5, 3, 3, 1 :: u32] < 2 ^ 32 \<and> length [10, 11, 12, 13 :: u32] = length [5, 3, 3, 1 :: u32]
   \<and> (0 :: nat) < 1
   \<and> mset (fst (OneSweepSort (\<lambda>t j. True) 1 ORDER_DESCENDING KEY_INT32 [5, 3, 3, 1]
        [10, 11, 12, 13])) = mset [5, 3, 3, 1]
   \<and> inOrder ORDER_DESCENDING KEY_INT32
        (fst (OneSweepSort (\<lambda>t j. True) 1 ORDER_DESCENDING KEY_INT32 [5, 3, 3, 1]
          [10, 11, 12, 13]))"
  using sort_returns_sorted_permutation [of "[5, 3, 3, 1]" "[10, 11, 12, 13]" 1
      "\<lambda>t j. True" ORDER_DESCENDING KEY_INT32]
  by simp

subsection \<open>Stability and payloads\<close>

lemma list_of_four: "length xs = 4 \<Longrightarrow> xs = [xs ! 0, xs ! 1, xs ! 2, xs ! 3]"
  by (rule nth_equalityI) (auto simp add: less_Suc_eq numeral_eq_Suc)

lemma OneSweepSort_example:
  assumes g: "0 < gsz"
  shows "OneSweepSort seen gsz ORDER_ASCENDING KEY_UINT32 [5, 3, 3, 1] [a, b, c, d]
     = ([1, 3, 3, 5], [d, b, c, a])"
proof -
  let ?keys = "[5, 3, 3, 1 :: u32]"
  let ?pay = "[a, b, c, d]"
  let ?r = "OneSweepSort seen gsz ORDER_ASCENDING KEY_UINT32 ?keys ?pay"
  have n: "length ?keys < 2 ^ 32" and p: "length ?pay = length ?keys"
    by simp_all
  have l4: "length ?keys = 4"
    by simp
  from OneSweepSort_arranges [OF n p g, of seen ORDER_ASCENDING KEY_UINT32, unfolded l4]
  obtain \<pi> where ak: "arranges \<pi> 4 ?keys (fst ?r)" and ap: "arranges \<pi> 4 ?pay (snd ?r)"
    and ord: "stablyOrders \<pi> 4 (\<lambda>k. unat (forwardTransform ORDER_ASCENDING KEY_UINT32 k)) ?keys"
    and lk: "length (fst ?r) = 4" and lp: "length (snd ?r) = 4"
    by blast
  have T: "\<And>k. forwardTransform ORDER_ASCENDING KEY_UINT32 k = k"
    by (simp add: forwardTransform_def keyToUint_def)
  from ord have o: "\<And>i j. i < 4 \<Longrightarrow> j < 4 \<Longrightarrow>
      \<pi> i < \<pi> j \<longleftrightarrow> unat (?keys ! i) < unat (?keys ! j)
        \<or> unat (?keys ! i) = unat (?keys ! j) \<and> i < j"
    by (simp add: stablyOrders_def T)
  have "\<pi> 3 < \<pi> 1" "\<pi> 1 < \<pi> 2" "\<pi> 2 < \<pi> 0"
    using o [of 3 1] o [of 1 2] o [of 2 0] by simp_all
  moreover from ak have "bij_betw \<pi> {..<4} {..<4}"
    by (simp add: arranges_def)
  then have "\<pi> 0 < 4"
    by (auto simp add: bij_betw_def)
  ultimately have pi: "\<pi> 3 = 0" "\<pi> 1 = 1" "\<pi> 2 = 2" "\<pi> 0 = 3"
    by linarith+
  from ak have "\<And>i. i < 4 \<Longrightarrow> fst ?r ! \<pi> i = ?keys ! i"
    by (simp add: arranges_def)
  from this [of 0] this [of 1] this [of 2] this [of 3]
  have k: "fst ?r ! 0 = 1" "fst ?r ! 1 = 3" "fst ?r ! 2 = 3" "fst ?r ! 3 = 5"
    unfolding pi by simp_all
  from ap have "\<And>i. i < 4 \<Longrightarrow> snd ?r ! \<pi> i = ?pay ! i"
    by (simp add: arranges_def)
  from this [of 0] this [of 1] this [of 2] this [of 3]
  have v: "snd ?r ! 0 = d" "snd ?r ! 1 = b" "snd ?r ! 2 = c" "snd ?r ! 3 = a"
    unfolding pi by simp_all
  have "fst ?r = [1, 3, 3, 5]"
    using list_of_four [OF lk] by (simp only: k)
  moreover have "snd ?r = [d, b, c, a]"
    using list_of_four [OF lp] by (simp only: v)
  ultimately show ?thesis
    by (simp add: prod_eq_iff)
qed

text \<open>C2: one bijection on the positions takes every input key and its payload to the
  position where the sort call returns them, and it keeps equal keys in the order of their
  input positions. In particular the keys 5, 3, 3, 1 with the payloads \<open>a\<close>, \<open>b\<close>, \<open>c\<close>, \<open>d\<close>,
  sorted unsigned ascending, come back as 1, 3, 3, 5 with \<open>d\<close>, \<open>b\<close>, \<open>c\<close>, \<open>a\<close>.\<close>

theorem sort_is_stable_and_moves_payloads:
  assumes "length keys < 2 ^ 32" and "length payloads = length keys" and "0 < gsz"
  shows "(\<exists>\<pi>. bij_betw \<pi> {..<length keys} {..<length keys}
      \<and> (\<forall>i<length keys.
            fst (OneSweepSort seen gsz sortingOrder keyType keys payloads) ! \<pi> i = keys ! i
            \<and> snd (OneSweepSort seen gsz sortingOrder keyType keys payloads) ! \<pi> i
                = payloads ! i)
      \<and> (\<forall>i<length keys. \<forall>j<length keys. i < j \<and> keys ! i = keys ! j \<longrightarrow> \<pi> i < \<pi> j))
    \<and> length (fst (OneSweepSort seen gsz sortingOrder keyType keys payloads)) = length keys
    \<and> length (snd (OneSweepSort seen gsz sortingOrder keyType keys payloads)) = length keys
    \<and> OneSweepSort seen gsz ORDER_ASCENDING KEY_UINT32 [5, 3, 3, 1] [a, b, c, d]
        = ([1, 3, 3, 5], [d, b, c, a])"
proof -
  let ?r = "OneSweepSort seen gsz sortingOrder keyType keys payloads"
  from OneSweepSort_arranges [OF assms, of seen sortingOrder keyType]
  obtain \<pi> where ak: "arranges \<pi> (length keys) keys (fst ?r)"
    and ap: "arranges \<pi> (length keys) payloads (snd ?r)"
    and ord: "stablyOrders \<pi> (length keys)
        (\<lambda>k. unat (forwardTransform sortingOrder keyType k)) keys"
    and lk: "length (fst ?r) = length keys" and lp: "length (snd ?r) = length keys"
    by blast
  have "bij_betw \<pi> {..<length keys} {..<length keys}"
    using ak by (simp add: arranges_def)
  moreover have "\<forall>i<length keys. fst ?r ! \<pi> i = keys ! i \<and> snd ?r ! \<pi> i = payloads ! i"
    using ak ap by (simp add: arranges_def)
  moreover have "\<forall>i<length keys. \<forall>j<length keys.
      i < j \<and> keys ! i = keys ! j \<longrightarrow> \<pi> i < \<pi> j"
    using ord by (simp add: stablyOrders_def)
  ultimately have "\<exists>\<pi>. bij_betw \<pi> {..<length keys} {..<length keys}
      \<and> (\<forall>i<length keys. fst ?r ! \<pi> i = keys ! i \<and> snd ?r ! \<pi> i = payloads ! i)
      \<and> (\<forall>i<length keys. \<forall>j<length keys. i < j \<and> keys ! i = keys ! j \<longrightarrow> \<pi> i < \<pi> j)"
    by blast
  with lk lp OneSweepSort_example [OF assms(3), of seen a b c d] show ?thesis
    by blast
qed

theorem sort_is_stable_and_moves_payloads_witness:
  "length [7, 7, 2 :: u32] < 2 ^ 32 \<and> length [20, 21, 22 :: u32] = length [7, 7, 2 :: u32]
   \<and> (0 :: nat) < 4
   \<and> OneSweepSort (\<lambda>t j. False) 4 ORDER_ASCENDING KEY_UINT32 [5, 3, 3, 1] [0, 1, 2, 3]
        = ([1, 3, 3, 5], [3, 1, 2, 0])
   \<and> length (fst (OneSweepSort (\<lambda>t j. False) 4 ORDER_ASCENDING KEY_FLOAT32 [7, 7, 2]
        [20, 21, 22])) = length [7, 7, 2 :: u32]"
  using sort_is_stable_and_moves_payloads [of "[7, 7, 2]" "[20, 21, 22]" 4
      "\<lambda>t j. False" ORDER_ASCENDING KEY_FLOAT32 0 1 2 3]
  by simp

end
